theory Spec2Isabelle
  imports Complex_Main "HOL-Library.Multiset"
begin

section \<open>Capacitated vehicle routing: cost model, construction, local search, annealing\<close>

text \<open>
  A shallow embedding of the optimisation engine (\<^verbatim>\<open>src/model.py\<close>, \<^verbatim>\<open>src/init.py\<close>,
  \<^verbatim>\<open>src/neighborhoods.py\<close>, \<^verbatim>\<open>src/meta.py\<close>).

  Conventions of the embedding.
  \<^item> Python floats are modelled as exact reals: rounding is not part of the model.
  \<^item> Node indices held in routes are naturals; the depot is index 0.
  \<^item> The distance matrix \<^verbatim>\<open>D\<close> (a 2-d array indexed by two node indices) is a function
    of two node indices; it stands for a matrix that covers every index a route holds.
  \<^item> \<^verbatim>\<open>nodes[i]\<close> is list indexing; statements that depend on the looked-up node say
    that the index is below the length of the node list.
  \<^item> In-place list mutation is modelled by returning the updated route list.
\<close>

subsection \<open>Instance model (model.py)\<close>

text \<open>The dataclass \<^verbatim>\<open>Node\<close>; the coordinate fields \<^verbatim>\<open>x\<close>, \<^verbatim>\<open>y\<close> are named
  \<open>x_coord\<close>, \<open>y_coord\<close>.\<close>

record Node =
  idx :: int
  x_coord :: real
  y_coord :: real
  demand :: int
  tw_open :: "real option"
  tw_close :: "real option"
  service :: real

record VRPInstance =
  depot :: Node
  customers :: "Node list"
  vehicle_capacity :: int
  num_vehicles :: int
  lambda_tw :: real
  mu_fair :: real

type_synonym route = "nat list"
type_synonym matrix = "nat \<Rightarrow> nat \<Rightarrow> real"

definition all_nodes :: "VRPInstance \<Rightarrow> Node list" where
  "all_nodes inst = depot inst # customers inst"

text \<open>\<^verbatim>\<open>route_distance\<close>: the sum of \<^verbatim>\<open>D[route[:-1], route[1:]]\<close>, 0 for fewer than two entries.\<close>

definition route_distance :: "route \<Rightarrow> matrix \<Rightarrow> real" where
  "route_distance route D =
     (if length route < 2 then 0
      else sum_list (map (\<lambda>(a, b). D a b) (zip (butlast route) (tl route))))"

text \<open>\<^verbatim>\<open>route_demand\<close>: \<^verbatim>\<open>sum(nodes[i].demand for i in route if i != 0)\<close>.\<close>

definition route_demand :: "route \<Rightarrow> Node list \<Rightarrow> int" where
  "route_demand route nodes = sum_list (map (\<lambda>i. demand (nodes ! i)) (filter (\<lambda>i. i \<noteq> 0) route))"

text \<open>\<^verbatim>\<open>time_window_penalty\<close>: one step of the loop over \<^verbatim>\<open>zip(route[:-1], route[1:])\<close>,
  on the pair (clock \<open>t\<close>, accumulated penalty).\<close>

definition tw_step :: "Node list \<Rightarrow> matrix \<Rightarrow> real \<times> real \<Rightarrow> nat \<times> nat \<Rightarrow> real \<times> real" where
  "tw_step nodes D st e =
     (let t1 = fst st + D (fst e) (snd e);
          node = nodes ! (snd e)
      in case tw_open node of
           None \<Rightarrow> (t1 + service node, snd st)
         | Some opn \<Rightarrow>
             (case tw_close node of
                None \<Rightarrow> (t1 + service node, snd st)
              | Some cls \<Rightarrow>
                  (let t2 = (if t1 < opn then opn else t1);
                       pen = (if t2 > cls then snd st + (t2 - cls) else snd st)
                   in (t2 + service node, pen))))"

definition time_window_penalty :: "route \<Rightarrow> Node list \<Rightarrow> matrix \<Rightarrow> real" where
  "time_window_penalty route nodes D =
     snd (foldl (tw_step nodes D) (0, 0) (zip (butlast route) (tl route)))"

text \<open>\<^verbatim>\<open>np.linspace(a, b, num)\<close> for \<open>num \<ge> 2\<close>: \<open>num\<close> evenly spaced points from \<open>a\<close> to \<open>b\<close>.\<close>

definition linspace :: "real \<Rightarrow> real \<Rightarrow> nat \<Rightarrow> real list" where
  "linspace a b num = map (\<lambda>k. a + real k * ((b - a) / real (num - 1))) [0..<num]"

text \<open>\<^verbatim>\<open>np.searchsorted(edges, v, side="right")\<close> on an ascending array: the index after the
  last edge that is \<open>\<le> v\<close>.\<close>

definition searchsorted_right :: "real list \<Rightarrow> real \<Rightarrow> nat" where
  "searchsorted_right edges v = length (takeWhile (\<lambda>e. e \<le> v) edges)"

text \<open>\<^verbatim>\<open>xs.min()\<close>, \<^verbatim>\<open>xs.max()\<close> of a non-empty array (numpy raises on an empty one; the node
  list always holds the depot).\<close>

fun arr_min :: "real list \<Rightarrow> real" where
  "arr_min (v # vs) = fold min vs v"

fun arr_max :: "real list \<Rightarrow> real" where
  "arr_max (v # vs) = fold max vs v"

text \<open>The nested function \<^verbatim>\<open>zone_id\<close> of \<^verbatim>\<open>fairness_penalty\<close>.\<close>

definition zone_id :: "Node list \<Rightarrow> nat \<Rightarrow> nat \<Rightarrow> int" where
  "zone_id nodes num_zones i =
     (let xs = map x_coord nodes;
          ys = map y_coord nodes;
          x_edges = linspace (arr_min xs) (arr_max xs) (num_zones + 1);
          y_edges = linspace (arr_min ys) (arr_max ys) (num_zones + 1);
          xz = int (searchsorted_right x_edges (x_coord (nodes ! i))) - 1;
          yz = int (searchsorted_right y_edges (y_coord (nodes ! i))) - 1;
          xz' = min (max xz 0) (int num_zones - 1);
          yz' = min (max yz 0) (int num_zones - 1)
      in yz' * int num_zones + xz')"

text \<open>The dictionary \<^verbatim>\<open>counts\<close>, in insertion order:
  \<^verbatim>\<open>counts[z] = counts.get(z, 0) + 1\<close>.\<close>

fun bump :: "int \<Rightarrow> (int \<times> nat) list \<Rightarrow> (int \<times> nat) list" where
  "bump z [] = [(z, 1)]"
| "bump z ((k, c) # kcs) = (if k = z then (k, c + 1) # kcs else (k, c) # bump z kcs)"

text \<open>\<^verbatim>\<open>np.var\<close>: the population variance, the mean of the squared deviations from the mean.\<close>

definition variance :: "real list \<Rightarrow> real" where
  "variance vs =
     (let m = sum_list vs / real (length vs)
      in sum_list (map (\<lambda>v. (v - m)\<^sup>2) vs) / real (length vs))"

text \<open>The zone of every non-depot entry of every route, in visiting order.\<close>

definition visited_zones :: "route list \<Rightarrow> Node list \<Rightarrow> nat \<Rightarrow> int list" where
  "visited_zones routes nodes num_zones =
     map (zone_id nodes num_zones) (filter (\<lambda>i. i \<noteq> 0) (concat routes))"

definition fairness_penalty :: "route list \<Rightarrow> Node list \<Rightarrow> nat \<Rightarrow> real" where
  "fairness_penalty routes nodes num_zones =
     (if num_zones \<le> 1 then 0
      else let counts = fold bump (visited_zones routes nodes num_zones) []
           in if counts = [] then 0
              else variance (map (\<lambda>kc. real (snd kc)) counts))"

text \<open>\<^verbatim>\<open>total_cost\<close>; \<^verbatim>\<open>fairness_penalty\<close> is called with its default \<^verbatim>\<open>num_zones = 4\<close>.\<close>

definition total_cost :: "route list \<Rightarrow> VRPInstance \<Rightarrow> matrix \<Rightarrow> real" where
  "total_cost routes inst D =
     (let nodes = all_nodes inst;
          dist = sum_list (map (\<lambda>r. route_distance r D) routes);
          tw_pen = (if lambda_tw inst > 0
                    then sum_list (map (\<lambda>r. time_window_penalty r nodes D) routes) else 0);
          fair_pen = (if mu_fair inst > 0 then fairness_penalty routes nodes 4 else 0)
      in dist + lambda_tw inst * tw_pen + mu_fair inst * fair_pen)"

subsection \<open>Neighbourhood operators (neighborhoods.py)\<close>

text \<open>\<^verbatim>\<open>two_opt_delta\<close>: the guard \<^verbatim>\<open>k >= len(route) - 1\<close> is written \<open>length route \<le> k + 1\<close>.\<close>

definition two_opt_delta :: "route \<Rightarrow> nat \<Rightarrow> nat \<Rightarrow> matrix \<Rightarrow> real" where
  "two_opt_delta route i k D =
     (if i < 1 \<or> length route \<le> k + 1 \<or> k \<le> i then 0
      else let a = route ! (i - 1); b = route ! i; c = route ! k; d = route ! (k + 1);
               before = D a b + D c d;
               after = D a c + D b d
           in after - before)"

text \<open>\<^verbatim>\<open>apply_two_opt\<close>: \<^verbatim>\<open>route[:i] + list(reversed(route[i:k+1])) + route[k+1:]\<close>.\<close>

definition apply_two_opt :: "route \<Rightarrow> nat \<Rightarrow> nat \<Rightarrow> route" where
  "apply_two_opt route i k = take i route @ rev (drop i (take (k + 1) route)) @ drop (k + 1) route"

text \<open>The candidate pairs of the two nested loops, in the order the loops visit them:
  \<^verbatim>\<open>for i in range(1, len(r) - 2): for k in range(i + 1, len(r) - 1)\<close>.\<close>

definition two_opt_candidates :: "route \<Rightarrow> (nat \<times> nat) list" where
  "two_opt_candidates r =
     concat (map (\<lambda>i. map (\<lambda>k. (i, k)) [i + 1 ..< length r - 1]) [1 ..< length r - 2])"

text \<open>The loop body: \<^verbatim>\<open>if delta < best_gain: best_gain = delta; best_move = (r_idx, i, k)\<close>.\<close>

definition two_opt_pick ::
  "nat \<Rightarrow> route \<Rightarrow> matrix \<Rightarrow> real \<times> (nat \<times> nat \<times> nat) option \<Rightarrow> nat \<times> nat
     \<Rightarrow> real \<times> (nat \<times> nat \<times> nat) option" where
  "two_opt_pick r_idx r D best ik =
     (let delta = two_opt_delta r (fst ik) (snd ik) D
      in if delta < fst best then (delta, Some (r_idx, fst ik, snd ik)) else best)"

definition two_opt_best :: "nat \<Rightarrow> route \<Rightarrow> matrix \<Rightarrow> real \<times> (nat \<times> nat \<times> nat) option" where
  "two_opt_best r_idx r D = foldl (two_opt_pick r_idx r D) (0, None) (two_opt_candidates r)"

text \<open>One iteration of \<^verbatim>\<open>for r_idx, r in enumerate(routes)\<close>, on (routes, changed).\<close>

definition two_opt_route_step :: "matrix \<Rightarrow> route list \<times> bool \<Rightarrow> nat \<Rightarrow> route list \<times> bool" where
  "two_opt_route_step D st r_idx =
     (case snd (two_opt_best r_idx (fst st ! r_idx) D) of
        None \<Rightarrow> st
      | Some (rr, i, k) \<Rightarrow> ((fst st)[rr := apply_two_opt (fst st ! rr) i k], True))"

definition two_opt_pass :: "route list \<Rightarrow> matrix \<Rightarrow> route list \<times> bool" where
  "two_opt_pass routes D = foldl (two_opt_route_step D) (routes, False) [0 ..< length routes]"

text \<open>\<^verbatim>\<open>for _ in range(max_passes)\<close> with the early \<^verbatim>\<open>break\<close>; the flag \<open>improved\<close> is carried.\<close>

fun two_opt_passes :: "nat \<Rightarrow> route list \<Rightarrow> matrix \<Rightarrow> bool \<Rightarrow> route list \<times> bool" where
  "two_opt_passes 0 routes D improved = (routes, improved)"
| "two_opt_passes (Suc n) routes D improved =
     (let p = two_opt_pass routes D
      in if snd p then two_opt_passes n (fst p) D True else (fst p, improved))"

definition improve_two_opt_intra :: "route list \<Rightarrow> matrix \<Rightarrow> nat \<Rightarrow> route list \<times> bool" where
  "improve_two_opt_intra routes D max_passes = two_opt_passes max_passes routes D False"

text \<open>\<^verbatim>\<open>relocate_best_improvement\<close>. The candidate moves \<open>(ra, ia, rb, jb)\<close> that reach the
  gain comparison, in the order of the four nested loops, with the three \<^verbatim>\<open>continue\<close>
  guards.\<close>

definition relocate_candidates ::
  "route list \<Rightarrow> Node list \<Rightarrow> int \<Rightarrow> (nat \<times> nat \<times> nat \<times> nat) list" where
  "relocate_candidates routes nodes cap =
     concat (map (\<lambda>ra.
       concat (map (\<lambda>ia.
         concat (map (\<lambda>rb.
           if ra = rb \<and> length (routes ! ra) \<le> 3 then []
           else if ra \<noteq> rb \<and> route_demand (routes ! rb) nodes
                                 + demand (nodes ! (routes ! ra ! ia)) > cap then []
           else concat (map (\<lambda>jb.
                  if ra = rb \<and> (jb = ia \<or> jb = ia + 1) then [] else [(ra, ia, rb, jb)])
                  [1 ..< length (routes ! rb)]))
           [0 ..< length routes]))
         [1 ..< length (routes ! ra) - 1]))
       [0 ..< length routes])"

text \<open>\<^verbatim>\<open>gain = delta_remove - delta_insert\<close>, both read from the unmodified routes.\<close>

fun relocate_gain :: "route list \<Rightarrow> matrix \<Rightarrow> nat \<times> nat \<times> nat \<times> nat \<Rightarrow> real" where
  "relocate_gain routes D (ra, ia, rb, jb) =
     (let rA = routes ! ra; rB = routes ! rb; customer = rA ! ia;
          delta_remove = D (rA ! (ia - 1)) (rA ! ia) + D (rA ! ia) (rA ! (ia + 1))
                           - D (rA ! (ia - 1)) (rA ! (ia + 1));
          prevB = rB ! (jb - 1); nextB = rB ! jb;
          delta_insert = D prevB customer + D customer nextB - D prevB nextB
      in delta_remove - delta_insert)"

definition relocate_pick ::
  "route list \<Rightarrow> matrix \<Rightarrow> real \<times> (nat \<times> nat \<times> nat \<times> nat) option \<Rightarrow> nat \<times> nat \<times> nat \<times> nat
     \<Rightarrow> real \<times> (nat \<times> nat \<times> nat \<times> nat) option" where
  "relocate_pick routes D best mv =
     (let gain = relocate_gain routes D mv
      in if gain > fst best then (gain, Some mv) else best)"

definition relocate_search ::
  "route list \<Rightarrow> VRPInstance \<Rightarrow> matrix \<Rightarrow> real \<times> (nat \<times> nat \<times> nat \<times> nat) option" where
  "relocate_search routes inst D =
     foldl (relocate_pick routes D) (0, None)
       (relocate_candidates routes (all_nodes inst) (vehicle_capacity inst))"

text \<open>\<^verbatim>\<open>del xs[ia]\<close> and \<^verbatim>\<open>xs.insert(jb, c)\<close> (an index past the end appends).\<close>

definition del_at :: "nat \<Rightarrow> 'a list \<Rightarrow> 'a list" where
  "del_at ia xs = take ia xs @ drop (Suc ia) xs"

definition insert_at :: "nat \<Rightarrow> 'a \<Rightarrow> 'a list \<Rightarrow> 'a list" where
  "insert_at jb c xs = take jb xs @ c # drop jb xs"

text \<open>Applying a move: \<^verbatim>\<open>del routes[ra][ia]\<close>, then \<^verbatim>\<open>routes[rb].insert(jb, customer)\<close> on the
  list as it is after the deletion, then the comprehension
  \<^verbatim>\<open>[r if len(r) > 2 else r for r in routes]\<close>.\<close>

fun relocate_apply :: "route list \<Rightarrow> nat \<times> nat \<times> nat \<times> nat \<Rightarrow> route list" where
  "relocate_apply routes (ra, ia, rb, jb) =
     (let customer = routes ! ra ! ia;
          routes1 = routes[ra := del_at ia (routes ! ra)];
          routes2 = routes1[rb := insert_at jb customer (routes1 ! rb)]
      in map (\<lambda>r. if length r > 2 then r else r) routes2)"

definition relocate_best_improvement ::
  "route list \<Rightarrow> VRPInstance \<Rightarrow> matrix \<Rightarrow> route list \<times> bool" where
  "relocate_best_improvement routes inst D =
     (let best = relocate_search routes inst D
      in case snd best of
           None \<Rightarrow> (routes, False)
         | Some mv \<Rightarrow>
             if fst best > 1 / 10 ^ 9 then (relocate_apply routes mv, True)
             else (routes, False))"

text \<open>The local-search driver's step (cli.py, eval.py): one 2-opt pass, then one relocate.\<close>

definition local_search_step ::
  "route list \<Rightarrow> VRPInstance \<Rightarrow> matrix \<Rightarrow> route list \<times> bool" where
  "local_search_step routes inst D =
     (let a = improve_two_opt_intra routes D 1;
          b = relocate_best_improvement (fst a) inst D
      in (fst b, snd a \<or> snd b))"

subsection \<open>Auxiliary notions for the proofs\<close>

text \<open>The length of a path, by recursion on the list; it coincides with \<open>route_distance\<close>.\<close>

fun path_len :: "matrix \<Rightarrow> nat list \<Rightarrow> real" where
  "path_len D [] = 0"
| "path_len D [a] = 0"
| "path_len D (a # b # xs) = D a b + path_len D (b # xs)"

subsection \<open>Concrete instances\<close>

text \<open>A distance matrix given by its rows, and a node without a time window.\<close>

definition matrix_of :: "real list list \<Rightarrow> matrix" where
  "matrix_of rows a b = rows ! a ! b"

definition plain_node :: "int \<Rightarrow> real \<Rightarrow> real \<Rightarrow> int \<Rightarrow> Node" where
  "plain_node i px py d =
     \<lparr>idx = i, x_coord = px, y_coord = py, demand = d,
      tw_open = None, tw_close = None, service = 0\<rparr>"

text \<open>Depot at (0,0), customers 1 and 2 at (10,0) and (20,0), unit demands, capacity 100;
  \<open>line_D\<close> is their Euclidean distance matrix.\<close>

definition line_inst :: VRPInstance where
  "line_inst =
     \<lparr>depot = plain_node 0 0 0 0,
      customers = [plain_node 1 10 0 1, plain_node 2 20 0 1],
      vehicle_capacity = 100, num_vehicles = 2, lambda_tw = 0, mu_fair = 0\<rparr>"

definition line_D :: matrix where
  "line_D = matrix_of [[0, 10, 20], [10, 0, 10], [20, 10, 0]]"

text \<open>Depot at (0,0), customers 1..4 at (9,0), (5,0), (-5,0), (0,12), unit demands,
  capacity 100, no penalty weights; \<open>kite_D\<close> is their Euclidean distance matrix
  (all distances are integers: 5-12-13 and 9-12-15 triangles).\<close>

definition kite_inst :: VRPInstance where
  "kite_inst =
     \<lparr>depot = plain_node 0 0 0 0,
      customers = [plain_node 1 9 0 1, plain_node 2 5 0 1, plain_node 3 (- 5) 0 1,
                   plain_node 4 0 12 1],
      vehicle_capacity = 100, num_vehicles = 2, lambda_tw = 0, mu_fair = 0\<rparr>"

definition kite_D :: matrix where
  "kite_D = matrix_of [[0, 9, 5, 5, 12], [9, 0, 4, 14, 15], [5, 4, 0, 10, 13],
                       [5, 14, 10, 0, 13], [12, 15, 13, 13, 0]]"

subsection \<open>The time-window simulation as claim C9 words it\<close>

text \<open>
  The simulation of claim C9, step by step: the edge's distance advances the clock to
  the arrival time; a clock before the node's window-open is advanced to it; if the node
  has a close time and the arrival time exceeds it, arrival minus close is added to the
  penalty; the service duration advances the clock. A node's open time and close time
  are each looked at on their own, and lateness is measured on the arrival time, before
  any wait.
\<close>

definition claimed_tw_step :: "Node list \<Rightarrow> matrix \<Rightarrow> real \<times> real \<Rightarrow> nat \<times> nat \<Rightarrow> real \<times> real" where
  "claimed_tw_step nodes D st e =
     (let arrival = fst st + D (fst e) (snd e);
          node = nodes ! (snd e);
          clock = (case tw_open node of
                     None \<Rightarrow> arrival
                   | Some opn \<Rightarrow> if arrival < opn then opn else arrival);
          pen = (case tw_close node of
                   None \<Rightarrow> snd st
                 | Some cls \<Rightarrow> if arrival > cls then snd st + (arrival - cls) else snd st)
      in (clock + service node, pen))"

definition claimed_tw_penalty :: "route \<Rightarrow> Node list \<Rightarrow> matrix \<Rightarrow> real" where
  "claimed_tw_penalty route nodes D =
     snd (foldl (claimed_tw_step nodes D) (0, 0) (zip (butlast route) (tl route)))"

text \<open>The data model's time window: an optional pair (open, close), an interval when
  present. A node has both times, with open not after close, or neither.\<close>

definition window_pair :: "Node \<Rightarrow> bool" where
  "window_pair node =
     (case tw_open node of
        None \<Rightarrow> tw_close node = None
      | Some opn \<Rightarrow> (case tw_close node of None \<Rightarrow> False | Some cls \<Rightarrow> opn \<le> cls))"

text \<open>An instance with time windows: customer 1 has window [10, 20] and service 2,
  customer 2 has window [0, 5].\<close>

definition window_node :: "int \<Rightarrow> real option \<Rightarrow> real option \<Rightarrow> real \<Rightarrow> Node" where
  "window_node i opn cls srv =
     \<lparr>idx = i, x_coord = 0, y_coord = 0, demand = 1,
      tw_open = opn, tw_close = cls, service = srv\<rparr>"

definition windows_inst :: VRPInstance where
  "windows_inst =
     \<lparr>depot = plain_node 0 0 0 0,
      customers = [window_node 1 (Some 10) (Some 20) 2, window_node 2 (Some 0) (Some 5) 0],
      vehicle_capacity = 100, num_vehicles = 1, lambda_tw = 1, mu_fair = 0\<rparr>"

definition windows_D :: matrix where
  "windows_D = matrix_of [[0, 3, 5], [3, 0, 4], [5, 4, 0]]"

subsection \<open>The fairness term as claim C8 words it, and over occupied cells\<close>

text \<open>The number of customer visits, across all routes, that fall into cell \<open>z\<close> of the
  4 x 4 grid.\<close>

definition cell_visits :: "route list \<Rightarrow> Node list \<Rightarrow> int \<Rightarrow> nat" where
  "cell_visits routes nodes z = count_list (visited_zones routes nodes 4) z"

text \<open>The cells of the 4 x 4 grid, numbered \<open>row * 4 + column\<close>.\<close>

definition grid_cells :: "int list" where
  "grid_cells = map int [0 ..< 16]"

text \<open>Claim C8: the population variance of the visit counts over all sixteen cells,
  cells without a visit included.\<close>

definition claimed_fairness_penalty :: "route list \<Rightarrow> Node list \<Rightarrow> real" where
  "claimed_fairness_penalty routes nodes =
     variance (map (\<lambda>z. real (cell_visits routes nodes z)) grid_cells)"

text \<open>The population variance of the visit counts over the cells with at least one visit;
  0 when no cell has one.\<close>

definition occupied_cells :: "route list \<Rightarrow> Node list \<Rightarrow> int list" where
  "occupied_cells routes nodes = filter (\<lambda>z. 0 < cell_visits routes nodes z) grid_cells"

definition occupied_fairness_penalty :: "route list \<Rightarrow> Node list \<Rightarrow> real" where
  "occupied_fairness_penalty routes nodes =
     (if occupied_cells routes nodes = [] then 0
      else variance (map (\<lambda>z. real (cell_visits routes nodes z)) (occupied_cells routes nodes)))"

text \<open>Instances with positive fairness weight. \<open>corner_inst\<close>: depot (0,0) and one customer
  at (4,4). \<open>spread_inst\<close>: depot (0,0), customers 1 and 2 at (1,0) and (1,1) in the
  cell of column 0, row 0, customer 3 at (8,8) in the last cell; \<open>spread_D\<close> is a
  symmetric matrix over its four nodes.\<close>

definition corner_inst :: VRPInstance where
  "corner_inst =
     \<lparr>depot = plain_node 0 0 0 0,
      customers = [plain_node 1 4 4 1],
      vehicle_capacity = 100, num_vehicles = 1, lambda_tw = 0, mu_fair = 1\<rparr>"

definition corner_D :: matrix where
  "corner_D = matrix_of [[0, 6], [6, 0]]"

definition spread_inst :: VRPInstance where
  "spread_inst =
     \<lparr>depot = plain_node 0 0 0 0,
      customers = [plain_node 1 1 0 1, plain_node 2 1 1 1, plain_node 3 8 8 1],
      vehicle_capacity = 100, num_vehicles = 2, lambda_tw = 0, mu_fair = 2\<rparr>"

definition spread_D :: matrix where
  "spread_D = matrix_of [[0, 1, 2, 12], [1, 0, 1, 11], [2, 1, 0, 10], [12, 11, 10, 0]]"

subsection \<open>Construction heuristic (init.py)\<close>

text \<open>
  The bookkeeping of \<^verbatim>\<open>clarke_wright\<close>: the route slots, the dictionary \<^verbatim>\<open>route_of\<close>
  (customer to slot) and the dictionary \<^verbatim>\<open>ends\<close> (slot to first and last customer).
  Both dictionaries are created with every key they are ever read at (the customers
  \<open>1..N\<close>, the slots \<open>0..N-1\<close>) and keys are never removed, so they are modelled as
  functions.
\<close>

record cw_state =
  cw_routes :: "route list"
  cw_route_of :: "nat \<Rightarrow> nat"
  cw_ends :: "nat \<Rightarrow> nat \<times> nat"

definition nodes_idx :: "VRPInstance \<Rightarrow> nat list" where
  "nodes_idx inst = [1 ..< length (customers inst) + 1]"

definition cw_init :: "VRPInstance \<Rightarrow> cw_state" where
  "cw_init inst =
     \<lparr>cw_routes = map (\<lambda>i. [0, i, 0]) (nodes_idx inst),
      cw_route_of = (\<lambda>cust. cust - 1),
      cw_ends = (\<lambda>ri. (nodes_idx inst ! ri, nodes_idx inst ! ri))\<rparr>"

text \<open>The savings list, in the order of the two nested loops, and its stable sort by
  descending savings (\<^verbatim>\<open>s_list.sort(reverse=True, key=lambda x: x[0])\<close>).\<close>

definition s_list :: "VRPInstance \<Rightarrow> matrix \<Rightarrow> (real \<times> nat \<times> nat) list" where
  "s_list inst D =
     concat (map (\<lambda>i.
       concat (map (\<lambda>j. if i < j then [(D 0 i + D 0 j - D i j, i, j)] else [])
                 (nodes_idx inst)))
       (nodes_idx inst))"

definition sorted_s_list :: "VRPInstance \<Rightarrow> matrix \<Rightarrow> (real \<times> nat \<times> nat) list" where
  "sorted_s_list inst D = sort_key (\<lambda>x. - fst x) (s_list inst D)"

text \<open>The nested function \<^verbatim>\<open>feasible_merge\<close>.\<close>

definition feasible_merge :: "VRPInstance \<Rightarrow> cw_state \<Rightarrow> nat \<Rightarrow> nat \<Rightarrow> nat \<Rightarrow> nat \<Rightarrow> bool" where
  "feasible_merge inst st ri_idx rj_idx i j =
     (if \<not> ri_idx < length (cw_routes st) \<or> \<not> rj_idx < length (cw_routes st) then False
      else let ri = cw_routes st ! ri_idx; rj = cw_routes st ! rj_idx
           in if ri = [0, 0] \<or> rj = [0, 0] then False
              else let ei = cw_ends st ri_idx; ej = cw_ends st rj_idx
                   in if (i \<noteq> fst ei \<and> i \<noteq> snd ei) \<or> (j \<noteq> fst ej \<and> j \<noteq> snd ej) then False
                      else let load_i = route_demand ri (all_nodes inst);
                               load_j = route_demand rj (all_nodes inst)
                           in if load_i + load_j > vehicle_capacity inst then False
                              else True)"

text \<open>The body of \<^verbatim>\<open>for s, i, j in s_list\<close>.\<close>

definition cw_step :: "VRPInstance \<Rightarrow> cw_state \<Rightarrow> real \<times> nat \<times> nat \<Rightarrow> cw_state" where
  "cw_step inst st sij =
     (let i = fst (snd sij); j = snd (snd sij);
          ri_idx = cw_route_of st i; rj_idx = cw_route_of st j
      in if ri_idx = rj_idx then st
         else if \<not> feasible_merge inst st ri_idx rj_idx i j then st
         else let ri = cw_routes st ! ri_idx; rj = cw_routes st ! rj_idx;
                  ei = cw_ends st ri_idx; ej = cw_ends st rj_idx;
                  ri' = (if fst ei = i then rev ri else ri);
                  rj' = (if snd ej = j then rev rj else rj);
                  new_route = butlast ri' @ tl rj';
                  new_first = (if length new_route > 2 then new_route ! 1 else 0);
                  new_last = (if length new_route > 2
                              then new_route ! (length new_route - 2) else 0)
              in \<lparr>cw_routes = (cw_routes st)[ri_idx := new_route, rj_idx := [0, 0]],
                  cw_route_of = fold (\<lambda>c ro. if c \<noteq> 0 then ro(c := ri_idx) else ro)
                                  new_route (cw_route_of st),
                  cw_ends = (cw_ends st)(ri_idx := (new_first, new_last), rj_idx := (0, 0))\<rparr>)"

text \<open>The routes after the merge loop, and the surviving ones
  (\<^verbatim>\<open>alive = [r for r in routes if r != [0, 0]]\<close>).\<close>

definition cw_merged :: "VRPInstance \<Rightarrow> matrix \<Rightarrow> cw_state" where
  "cw_merged inst D = foldl (cw_step inst) (cw_init inst) (sorted_s_list inst D)"

definition cw_alive :: "VRPInstance \<Rightarrow> matrix \<Rightarrow> route list" where
  "cw_alive inst D = filter (\<lambda>r. r \<noteq> [0, 0]) (cw_routes (cw_merged inst D))"

text \<open>The slice \<^verbatim>\<open>xs[:k]\<close> for an integer \<open>k\<close>: a negative \<open>k\<close> counts from the end.\<close>

definition py_prefix :: "int \<Rightarrow> 'a list \<Rightarrow> 'a list" where
  "py_prefix k xs = (if 0 \<le> k then take (nat k) xs else take (length xs - nat (- k)) xs)"

text \<open>\<^verbatim>\<open>clarke_wright\<close>: when more routes survive than there are vehicles, the routes are
  sorted (stably) by descending demand and the first \<^verbatim>\<open>num_vehicles\<close> are kept.\<close>

definition clarke_wright :: "VRPInstance \<Rightarrow> matrix \<Rightarrow> route list" where
  "clarke_wright inst D =
     (let alive = cw_alive inst D
      in if int (length alive) > num_vehicles inst
         then py_prefix (num_vehicles inst)
                (sort_key (\<lambda>r. - route_demand r (all_nodes inst)) alive)
         else alive)"

subsection \<open>Simulated annealing (meta.py)\<close>

text \<open>
  The loop state of \<^verbatim>\<open>simulated_annealing\<close>. Two inputs come from the environment:
  \<^item> \<open>rng\<close>, the sequence of values \<^verbatim>\<open>rng.random()\<close> returns (the generator is seeded
    with 42, so the sequence is fixed, but it is not computed here); \<open>sa_draws\<close> counts
    the draws made, since a draw is made only when \<open>delta > 0\<close>;
  \<^item> the readings of \<^verbatim>\<open>time.time()\<close>: the first fixes the deadline, each later one is
    a loop test.
  The route lists are values here, so the copies \<^verbatim>\<open>[r[:] for r in ...]\<close> are the
  identity; the model with an explicit store follows below.
\<close>

record sa_state =
  sa_best :: "route list"
  sa_best_cost :: real
  sa_cur :: "route list"
  sa_cur_cost :: real
  sa_T :: real
  sa_iters :: nat
  sa_draws :: nat

definition sa_init :: "route list \<Rightarrow> VRPInstance \<Rightarrow> matrix \<Rightarrow> real \<Rightarrow> sa_state" where
  "sa_init routes inst D T0 =
     \<lparr>sa_best = routes, sa_best_cost = total_cost routes inst D,
      sa_cur = routes, sa_cur_cost = total_cost routes inst D,
      sa_T = T0, sa_iters = 0, sa_draws = 0\<rparr>"

text \<open>One iteration of the \<^verbatim>\<open>while\<close> body.\<close>

definition sa_iter :: "VRPInstance \<Rightarrow> matrix \<Rightarrow> real \<Rightarrow> (nat \<Rightarrow> real) \<Rightarrow> sa_state \<Rightarrow> sa_state" where
  "sa_iter inst D alpha rng st =
     (let iters = sa_iters st + 1;
          cand = (if iters mod 2 = 0
                  then fst (improve_two_opt_intra (sa_cur st) D 1)
                  else fst (relocate_best_improvement (sa_cur st) inst D));
          cand_cost = total_cost cand inst D;
          delta = cand_cost - sa_cur_cost st;
          accept = (delta \<le> 0 \<or> rng (sa_draws st) < exp (- delta / max (sa_T st) (1 / 10 ^ 9)));
          draws = (if delta \<le> 0 then sa_draws st else sa_draws st + 1);
          st1 = (if accept
                 then (if cand_cost < sa_best_cost st
                       then st\<lparr>sa_cur := cand, sa_cur_cost := cand_cost,
                               sa_best := cand, sa_best_cost := cand_cost\<rparr>
                       else st\<lparr>sa_cur := cand, sa_cur_cost := cand_cost\<rparr>)
                 else st)
      in st1\<lparr>sa_T := sa_T st * alpha, sa_iters := iters, sa_draws := draws\<rparr>)"

text \<open>\<^verbatim>\<open>while time.time() < t_end\<close>, on the list of the clock's readings at the loop tests.
  \<open>None\<close>: the readings given end before the deadline is reached.\<close>

fun sa_loop ::
  "VRPInstance \<Rightarrow> matrix \<Rightarrow> real \<Rightarrow> (nat \<Rightarrow> real) \<Rightarrow> real \<Rightarrow> real list \<Rightarrow> sa_state
     \<Rightarrow> sa_state option" where
  "sa_loop inst D alpha rng t_end [] st = None"
| "sa_loop inst D alpha rng t_end (t # ts) st =
     (if t < t_end then sa_loop inst D alpha rng t_end ts (sa_iter inst D alpha rng st)
      else Some st)"

definition simulated_annealing ::
  "route list \<Rightarrow> VRPInstance \<Rightarrow> matrix \<Rightarrow> real \<Rightarrow> real \<Rightarrow> real \<Rightarrow> (nat \<Rightarrow> real) \<Rightarrow> real list
     \<Rightarrow> route list option" where
  "simulated_annealing routes inst D time_budget_s T0 alpha rng clock =
     (case clock of
        [] \<Rightarrow> None
      | t0 # ts \<Rightarrow>
          map_option sa_best
            (sa_loop inst D alpha rng (t0 + time_budget_s) ts (sa_init routes inst D T0)))"

text \<open>Invariant of the annealing loop: the tracked best cost is the cost of the tracked best solution and never exceeds
  the bound it started under.\<close>

definition sa_best_inv :: "VRPInstance \<Rightarrow> matrix \<Rightarrow> real \<Rightarrow> sa_state \<Rightarrow> bool" where
  "sa_best_inv inst D c0 st =
     (sa_best_cost st = total_cost (sa_best st) inst D \<and> sa_best_cost st \<le> c0)"

subsection \<open>Solution invariants\<close>

text \<open>The customer visits of a solution: the non-depot entries of all its routes.\<close>

definition customers_served :: "route list \<Rightarrow> nat multiset" where
  "customers_served routes = mset (filter (\<lambda>v. v \<noteq> 0) (concat routes))"

text \<open>Partition: every customer index \<open>1..N\<close> is visited exactly once over all routes, and
  nothing else is visited.\<close>

definition partition_ok :: "VRPInstance \<Rightarrow> route list \<Rightarrow> bool" where
  "partition_ok inst routes = (customers_served routes = mset (nodes_idx inst))"


text \<open>Every entry of every route is the index of a node of the instance.\<close>

definition valid_entries :: "VRPInstance \<Rightarrow> route list \<Rightarrow> bool" where
  "valid_entries inst routes = (\<forall>r\<in>set routes. \<forall>v\<in>set r. v < length (all_nodes inst))"

text \<open>A route slot of the construction: at least two entries, the depot first and last.\<close>

definition depot_ended :: "route \<Rightarrow> bool" where
  "depot_ended r = (2 \<le> length r \<and> hd r = 0 \<and> last r = 0)"

text \<open>The non-depot entries of one route, as a multiset.\<close>

definition route_customers :: "route \<Rightarrow> nat multiset" where
  "route_customers r = mset (filter (\<lambda>v. v \<noteq> 0) r)"

text \<open>Invariants of the merge loop on the route slots: every slot is depot-ended and
  the slots partition the customers; every slot other than a dead one fits the capacity.\<close>

definition cw_inv :: "VRPInstance \<Rightarrow> route list \<Rightarrow> bool" where
  "cw_inv inst routes =
     ((\<forall>r\<in>set routes. depot_ended r) \<and> customers_served routes = mset (nodes_idx inst))"


text \<open>\<open>tight_inst\<close>: the two customers of \<open>line_inst\<close> with demand 3 each, capacity 5 and
  a single vehicle.\<close>

definition tight_inst :: VRPInstance where
  "tight_inst =
     \<lparr>depot = plain_node 0 0 0 0,
      customers = [plain_node 1 10 0 3, plain_node 2 20 0 3],
      vehicle_capacity = 5, num_vehicles = 1, lambda_tw = 0, mu_fair = 0\<rparr>"

text \<open>Instances with a customer whose demand exceeds the capacity. \<open>heavy_inst\<close>: one
  customer at (10,0) with demand 5, capacity 3. \<open>overweight_inst\<close>: the customers of
  \<open>kite_inst\<close>, customer 3 with demand 200 against capacity 100.\<close>

definition heavy_inst :: VRPInstance where
  "heavy_inst =
     \<lparr>depot = plain_node 0 0 0 0,
      customers = [plain_node 1 10 0 5],
      vehicle_capacity = 3, num_vehicles = 1, lambda_tw = 0, mu_fair = 0\<rparr>"

definition heavy_D :: matrix where
  "heavy_D = matrix_of [[0, 10], [10, 0]]"

definition overweight_inst :: VRPInstance where
  "overweight_inst =
     \<lparr>depot = plain_node 0 0 0 0,
      customers = [plain_node 1 9 0 1, plain_node 2 5 0 1, plain_node 3 (- 5) 0 200,
                   plain_node 4 0 12 1],
      vehicle_capacity = 100, num_vehicles = 2, lambda_tw = 0, mu_fair = 0\<rparr>"

text \<open>Invariant of the merge loop for a customer \<open>c\<close> that is too heavy to be merged: its
  slot still holds its singleton route, and all entries are node indices.\<close>

definition alone_inv :: "VRPInstance \<Rightarrow> nat \<Rightarrow> route list \<Rightarrow> bool" where
  "alone_inv inst c routes =
     (c - 1 < length routes \<and> routes ! (c - 1) = [0, c, 0] \<and> valid_entries inst routes)"

subsection \<open>Simulated annealing on a store of list objects (meta.py)\<close>

text \<open>
  Python lists are objects: a solution is a list object whose elements are references
  to route objects, and \<^verbatim>\<open>r[:]\<close> and a list comprehension create new objects. To speak
  about storage, the same functions are modelled once more on an explicit store: a
  map from references to the solution objects (\<open>outer\<close>), a map from references to the
  route objects (\<open>inner\<close>), and the next unused reference; every reference below
  \<open>next_ref\<close> is in use. The operators mutate the objects they are given, as the code does.
\<close>

type_synonym ref = nat

record store =
  outer :: "ref \<Rightarrow> ref list"
  inner :: "ref \<Rightarrow> route"
  next_ref :: ref

definition alloc_inner :: "store \<Rightarrow> route \<Rightarrow> store \<times> ref" where
  "alloc_inner s r = (s\<lparr>inner := (inner s)(next_ref s := r), next_ref := Suc (next_ref s)\<rparr>, next_ref s)"

definition alloc_outer :: "store \<Rightarrow> ref list \<Rightarrow> store \<times> ref" where
  "alloc_outer s rs = (s\<lparr>outer := (outer s)(next_ref s := rs), next_ref := Suc (next_ref s)\<rparr>, next_ref s)"

text \<open>The routes a solution object holds, as values.\<close>

definition deref :: "store \<Rightarrow> ref \<Rightarrow> route list" where
  "deref s sol = map (inner s) (outer s sol)"

text \<open>\<^verbatim>\<open>[r[:] for r in routes]\<close>: a new route object for every element, in order, then a
  new solution object holding them.\<close>

fun copy_elems :: "store \<Rightarrow> ref list \<Rightarrow> store \<times> ref list" where
  "copy_elems s [] = (s, [])"
| "copy_elems s (a # as) =
     (let p = alloc_inner s (inner s a);
          q = copy_elems (fst p) as
      in (fst q, snd p # snd q))"

definition copy_routes :: "store \<Rightarrow> ref \<Rightarrow> store \<times> ref" where
  "copy_routes s sol = (let p = copy_elems s (outer s sol) in alloc_outer (fst p) (snd p))"

text \<open>\<^verbatim>\<open>improve_two_opt_intra\<close> on the solution object \<open>sol\<close>:
  \<^verbatim>\<open>routes[rr] = apply_two_opt(routes[rr], i, k)\<close> creates a route object and stores its
  reference in the solution object. The state of the loops is the store and the flag.\<close>

definition two_opt_route_step_st :: "matrix \<Rightarrow> ref \<Rightarrow> store \<times> bool \<Rightarrow> nat \<Rightarrow> store \<times> bool" where
  "two_opt_route_step_st D sol st r_idx =
     (let s = fst st
      in case snd (two_opt_best r_idx (inner s (outer s sol ! r_idx)) D) of
           None \<Rightarrow> st
         | Some (rr, i, k) \<Rightarrow>
             (let p = alloc_inner s (apply_two_opt (inner s (outer s sol ! rr)) i k);
                  s1 = fst p
              in (s1\<lparr>outer := (outer s1)(sol := (outer s1 sol)[rr := snd p])\<rparr>, True)))"

definition two_opt_pass_st :: "store \<Rightarrow> ref \<Rightarrow> matrix \<Rightarrow> store \<times> bool" where
  "two_opt_pass_st s sol D =
     foldl (two_opt_route_step_st D sol) (s, False) [0 ..< length (outer s sol)]"

fun two_opt_passes_st :: "nat \<Rightarrow> store \<Rightarrow> ref \<Rightarrow> matrix \<Rightarrow> bool \<Rightarrow> store \<times> bool" where
  "two_opt_passes_st 0 s sol D improved = (s, improved)"
| "two_opt_passes_st (Suc n) s sol D improved =
     (let p = two_opt_pass_st s sol D
      in if snd p then two_opt_passes_st n (fst p) sol D True else (fst p, improved))"

definition improve_two_opt_intra_st :: "store \<Rightarrow> ref \<Rightarrow> matrix \<Rightarrow> nat \<Rightarrow> store \<times> bool" where
  "improve_two_opt_intra_st s sol D max_passes = two_opt_passes_st max_passes s sol D False"

text \<open>\<^verbatim>\<open>relocate_best_improvement\<close> on the solution object \<open>sol\<close>: the search reads the
  routes; \<^verbatim>\<open>del routes[ra][ia]\<close> and \<^verbatim>\<open>routes[rb].insert(jb, customer)\<close> mutate route
  objects; \<^verbatim>\<open>routes[:] = [r if len(r) > 2 else r for r in routes]\<close> stores the same
  references back into the solution object.\<close>

fun relocate_apply_st :: "store \<Rightarrow> ref \<Rightarrow> nat \<times> nat \<times> nat \<times> nat \<Rightarrow> store" where
  "relocate_apply_st s sol (ra, ia, rb, jb) =
     (let customer = inner s (outer s sol ! ra) ! ia;
          s1 = s\<lparr>inner := (inner s)(outer s sol ! ra := del_at ia (inner s (outer s sol ! ra)))\<rparr>;
          s2 = s1\<lparr>inner := (inner s1)(outer s1 sol ! rb :=
                               insert_at jb customer (inner s1 (outer s1 sol ! rb)))\<rparr>
      in s2\<lparr>outer := (outer s2)(sol := map (\<lambda>r. if length (inner s2 r) > 2 then r else r)
                                           (outer s2 sol))\<rparr>)"

definition relocate_best_improvement_st :: "store \<Rightarrow> ref \<Rightarrow> VRPInstance \<Rightarrow> matrix \<Rightarrow> store \<times> bool" where
  "relocate_best_improvement_st s sol inst D =
     (let best = relocate_search (deref s sol) inst D
      in case snd best of
           None \<Rightarrow> (s, False)
         | Some mv \<Rightarrow>
             if fst best > 1 / 10 ^ 9 then (relocate_apply_st s sol mv, True)
             else (s, False))"

text \<open>The loop state of \<^verbatim>\<open>simulated_annealing\<close> with the store; \<open>ss_best\<close> and \<open>ss_cur\<close> are
  references to solution objects.\<close>

record sa_store_state =
  ss_store :: store
  ss_best :: ref
  ss_best_cost :: real
  ss_cur :: ref
  ss_cur_cost :: real
  ss_T :: real
  ss_iters :: nat
  ss_draws :: nat

definition sa_init_st :: "store \<Rightarrow> ref \<Rightarrow> VRPInstance \<Rightarrow> matrix \<Rightarrow> real \<Rightarrow> sa_store_state" where
  "sa_init_st s routes inst D T0 =
     (let b = copy_routes s routes;
          best_cost = total_cost (deref (fst b) (snd b)) inst D;
          c = copy_routes (fst b) routes
      in \<lparr>ss_store = fst c, ss_best = snd b, ss_best_cost = best_cost,
          ss_cur = snd c, ss_cur_cost = best_cost, ss_T = T0, ss_iters = 0, ss_draws = 0\<rparr>)"

definition sa_iter_st ::
  "VRPInstance \<Rightarrow> matrix \<Rightarrow> real \<Rightarrow> (nat \<Rightarrow> real) \<Rightarrow> sa_store_state \<Rightarrow> sa_store_state" where
  "sa_iter_st inst D alpha rng st =
     (let iters = ss_iters st + 1;
          c = copy_routes (ss_store st) (ss_cur st);
          cand = snd c;
          s1 = (if iters mod 2 = 0
                then fst (improve_two_opt_intra_st (fst c) cand D 1)
                else fst (relocate_best_improvement_st (fst c) cand inst D));
          cand_cost = total_cost (deref s1 cand) inst D;
          delta = cand_cost - ss_cur_cost st;
          accept = (delta \<le> 0 \<or> rng (ss_draws st) < exp (- delta / max (ss_T st) (1 / 10 ^ 9)));
          draws = (if delta \<le> 0 then ss_draws st else ss_draws st + 1);
          st1 = (if accept
                 then (if cand_cost < ss_best_cost st
                       then (let b = copy_routes s1 cand
                             in st\<lparr>ss_store := fst b, ss_cur := cand, ss_cur_cost := cand_cost,
                                    ss_best := snd b, ss_best_cost := cand_cost\<rparr>)
                       else st\<lparr>ss_store := s1, ss_cur := cand, ss_cur_cost := cand_cost\<rparr>)
                 else st\<lparr>ss_store := s1\<rparr>)
      in st1\<lparr>ss_T := ss_T st * alpha, ss_iters := iters, ss_draws := draws\<rparr>)"

fun sa_loop_st ::
  "VRPInstance \<Rightarrow> matrix \<Rightarrow> real \<Rightarrow> (nat \<Rightarrow> real) \<Rightarrow> real \<Rightarrow> real list \<Rightarrow> sa_store_state
     \<Rightarrow> sa_store_state option" where
  "sa_loop_st inst D alpha rng t_end [] st = None"
| "sa_loop_st inst D alpha rng t_end (t # ts) st =
     (if t < t_end then sa_loop_st inst D alpha rng t_end ts (sa_iter_st inst D alpha rng st)
      else Some st)"

text \<open>The run up to the \<^verbatim>\<open>return\<close>, and the function: the returned reference \<open>best\<close>
  together with the store it is read in.\<close>

definition sa_run_st ::
  "store \<Rightarrow> ref \<Rightarrow> VRPInstance \<Rightarrow> matrix \<Rightarrow> real \<Rightarrow> real \<Rightarrow> real \<Rightarrow> (nat \<Rightarrow> real) \<Rightarrow> real list
     \<Rightarrow> sa_store_state option" where
  "sa_run_st s routes inst D time_budget_s T0 alpha rng clock =
     (case clock of
        [] \<Rightarrow> None
      | t0 # ts \<Rightarrow>
          sa_loop_st inst D alpha rng (t0 + time_budget_s) ts (sa_init_st s routes inst D T0))"

definition simulated_annealing_st ::
  "store \<Rightarrow> ref \<Rightarrow> VRPInstance \<Rightarrow> matrix \<Rightarrow> real \<Rightarrow> real \<Rightarrow> real \<Rightarrow> (nat \<Rightarrow> real) \<Rightarrow> real list
     \<Rightarrow> (store \<times> ref) option" where
  "simulated_annealing_st s routes inst D time_budget_s T0 alpha rng clock =
     map_option (\<lambda>st. (ss_store st, ss_best st))
       (sa_run_st s routes inst D time_budget_s T0 alpha rng clock)"

text \<open>A solution object of the store in use: the object and the route objects it holds
  have been allocated.\<close>

definition allocated :: "store \<Rightarrow> ref \<Rightarrow> bool" where
  "allocated s sol = (sol < next_ref s \<and> (\<forall>a\<in>set (outer s sol). a < next_ref s))"

text \<open>A store holding the two singleton routes of \<open>line_inst\<close> as objects 0 and 1 and the
  solution object 2.\<close>

definition line_store :: store where
  "line_store =
     \<lparr>outer = (\<lambda>_. [])(2 := [0, 1]),
      inner = (\<lambda>_. [])(0 := [0, 1, 0], 1 := [0, 2, 0]),
      next_ref = 3\<rparr>"

section \<open>Verification\<close>

subsection \<open>Route distance as a path length\<close>

lemma route_distance_path: "route_distance r D = path_len D r"
proof (induction D r rule: path_len.induct)
  case (1 D)
  show ?case by (simp add: route_distance_def)
next
  case (2 D a)
  show ?case by (simp add: route_distance_def)
next
  case (3 D a b xs)
  then show ?case by (simp add: route_distance_def split: if_splits)
qed

lemma path_len_append:
  "xs \<noteq> [] \<Longrightarrow> ys \<noteq> [] \<Longrightarrow>
     path_len D (xs @ ys) = path_len D xs + D (last xs) (hd ys) + path_len D ys"
proof (induction D xs rule: path_len.induct)
  case (1 D)
  then show ?case by simp
next
  case (2 D a)
  then show ?case by (cases ys) simp_all
next
  case (3 D a b xs)
  then show ?case by simp
qed

lemma path_len_snoc:
  "xs \<noteq> [] \<Longrightarrow> path_len D (xs @ [x]) = path_len D xs + D (last xs) x"
  by (induction D xs rule: path_len.induct) simp_all

lemma path_len_rev:
  "\<forall>a\<in>set xs. \<forall>b\<in>set xs. D a b = D b a \<Longrightarrow> path_len D (rev xs) = path_len D xs"
proof (induction D xs rule: path_len.induct)
  case (1 D)
  show ?case by simp
next
  case (2 D a)
  show ?case by simp
next
  case (3 D a b xs)
  have sub: "\<forall>u\<in>set (b # xs). \<forall>v\<in>set (b # xs). D u v = D v u"
    using "3.prems" by (meson list.set_intros(2))
  have ab: "D b a = D a b"
    using "3.prems" by (meson list.set_intros)
  have "path_len D (rev (a # b # xs)) = path_len D (rev (b # xs) @ [a])" by simp
  also have "\<dots> = path_len D (rev (b # xs)) + D (last (rev (b # xs))) a"
    by (rule path_len_snoc) simp
  also have "\<dots> = path_len D (b # xs) + D b a"
    using "3.IH"[OF sub] by simp
  finally show ?case using ab by simp
qed

subsection \<open>The 2-opt delta in exact arithmetic\<close>

text \<open>
  For a route, a distance matrix that is symmetric on the route's nodes, and indices
  \<open>1 \<le> i < k \<le> length route - 2\<close>, the delta that \<open>two_opt_delta\<close> computes from the four
  boundary edges is, as a real number, the distance of the route with \<open>route[i..k]\<close>
  reversed minus the distance of the route. (That the route starts and ends at the depot
  is not needed.) This is the algebraic content of claim C7. The claim itself bounds
  the difference of the two values as computed in float64; rounding is not part of this
  embedding, where the two values are equal.
\<close>

lemma two_opt_decompose:
  assumes sym: "\<forall>a\<in>set route. \<forall>b\<in>set route. D a b = D b a"
    and i1: "1 \<le> i" and ik: "i < k" and kn: "k + 2 \<le> length route"
  shows "route_distance route D
           = (path_len D (take i route) + path_len D (drop i (take (k + 1) route))
                + path_len D (drop (k + 1) route))
             + (D (route ! (i - 1)) (route ! i) + D (route ! k) (route ! (k + 1)))"
    and "route_distance (apply_two_opt route i k) D
           = (path_len D (take i route) + path_len D (drop i (take (k + 1) route))
                + path_len D (drop (k + 1) route))
             + (D (route ! (i - 1)) (route ! k) + D (route ! i) (route ! (k + 1)))"
proof -
  define A where "A = take i route"
  define S where "S = drop i (take (k + 1) route)"
  define B where "B = drop (k + 1) route"
  have "take i (take (k + 1) route) = take i route"
    using ik by (simp add: min_def)
  then have "take (k + 1) route = A @ S"
    unfolding A_def S_def by (metis append_take_drop_id)
  then have route: "route = A @ S @ B"
    unfolding B_def by (metis append_take_drop_id append.assoc)
  have lenA: "length A = i" unfolding A_def using ik kn by simp
  have lenS: "length S = k + 1 - i" unfolding S_def using ik kn by simp
  have lenB: "length B = length route - (k + 1)" unfolding B_def by simp
  have Ane: "A \<noteq> []" using lenA i1 by auto
  have Sne: "S \<noteq> []" using lenS ik by auto
  have Bne: "B \<noteq> []" using lenB kn by auto
  have lastA: "last A = route ! (i - 1)"
    using Ane lenA i1 ik kn unfolding A_def by (simp add: last_conv_nth)
  have hdS: "hd S = route ! i"
    using Sne ik kn unfolding S_def by (simp add: hd_drop_conv_nth)
  have lastS: "last S = route ! k"
    using Sne lenS ik kn unfolding S_def by (simp add: last_conv_nth)
  have hdB: "hd B = route ! (k + 1)"
    using Bne kn unfolding B_def by (simp add: hd_drop_conv_nth)
  have symS: "\<forall>a\<in>set S. \<forall>b\<in>set S. D a b = D b a"
  proof (intro ballI)
    fix a b assume "a \<in> set S" "b \<in> set S"
    then have "a \<in> set route" "b \<in> set route" by (subst route, simp)+
    then show "D a b = D b a" using sym by blast
  qed
  have orig: "path_len D route = path_len D A + D (last A) (hd S) + path_len D S
                 + D (last S) (hd B) + path_len D B"
    by (subst route) (simp add: path_len_append Ane Sne Bne)
  have app: "apply_two_opt route i k = A @ rev S @ B"
    by (simp add: apply_two_opt_def A_def S_def B_def)
  have new: "path_len D (apply_two_opt route i k) = path_len D A + D (last A) (last S)
                 + path_len D S + D (hd S) (hd B) + path_len D B"
    unfolding app using Ane Sne Bne path_len_rev[OF symS]
    by (simp add: path_len_append hd_rev last_rev)
  show "route_distance route D
           = (path_len D (take i route) + path_len D (drop i (take (k + 1) route))
                + path_len D (drop (k + 1) route))
             + (D (route ! (i - 1)) (route ! i) + D (route ! k) (route ! (k + 1)))"
    unfolding route_distance_path orig lastA hdS lastS hdB
    by (simp add: A_def S_def B_def)
  show "route_distance (apply_two_opt route i k) D
           = (path_len D (take i route) + path_len D (drop i (take (k + 1) route))
                + path_len D (drop (k + 1) route))
             + (D (route ! (i - 1)) (route ! k) + D (route ! i) (route ! (k + 1)))"
    unfolding route_distance_path new lastA hdS lastS hdB
    by (simp add: A_def S_def B_def)
qed

lemma two_opt_delta_exact:
  assumes sym: "\<forall>a\<in>set route. \<forall>b\<in>set route. D a b = D b a"
    and i1: "1 \<le> i" and ik: "i < k" and kn: "k + 2 \<le> length route"
  shows "two_opt_delta route i k D
           = route_distance (apply_two_opt route i k) D - route_distance route D"
proof -
  have delta: "two_opt_delta route i k D
      = (D (route ! (i - 1)) (route ! k) + D (route ! i) (route ! (k + 1)))
        - (D (route ! (i - 1)) (route ! i) + D (route ! k) (route ! (k + 1)))"
    using i1 ik kn by (simp add: two_opt_delta_def Let_def)
  show ?thesis
    unfolding delta two_opt_decompose[OF assms] by simp
qed

lemma two_opt_delta_exact_kite:
  "two_opt_delta [0, 1, 2, 3, 4, 0] 3 4 kite_D = - 4
   \<and> two_opt_delta [0, 1, 2, 3, 4, 0] 3 4 kite_D
       = route_distance (apply_two_opt [0, 1, 2, 3, 4, 0] 3 4) kite_D
         - route_distance [0, 1, 2, 3, 4, 0] kite_D"
proof -
  have sym: "\<forall>a\<in>set [0, 1, 2, 3, 4, 0::nat]. \<forall>b\<in>set [0, 1, 2, 3, 4, 0]. kite_D a b = kite_D b a"
    by code_simp
  have v: "two_opt_delta [0, 1, 2, 3, 4, 0] 3 4 kite_D = - 4"
    by code_simp
  have len: "(4::nat) + 2 \<le> length [0, 1, 2, 3, 4, 0::nat]" by simp
  show ?thesis
    using two_opt_delta_exact[OF sym _ _ len, of 3] v by simp
qed

subsection \<open>C1: relocate and emptied routes\<close>

text \<open>
  Claim C1 says that a route left with zero customers by an applied relocate move is
  removed, so that the result holds no route \<open>[0, 0]\<close>. The code's clean-up comprehension
  maps every route to itself: on the two singleton routes of \<open>line_inst\<close> the best move
  (gain 20) takes customer 1 into the route of customer 2, and the emptied route
  \<open>[0, 0]\<close> stays in the returned list.
\<close>

theorem relocate_keeps_empty_route:
  "relocate_search [[0, 1, 0], [0, 2, 0]] line_inst line_D = (20, Some (0, 1, 1, 1))
   \<and> relocate_best_improvement [[0, 1, 0], [0, 2, 0]] line_inst line_D
       = ([[0, 0], [0, 1, 2, 0]], True)"
  by code_simp

subsection \<open>C5: cost monotonicity of the local-search step\<close>

text \<open>
  Claim C5 says that one 2-opt pass followed by one relocate pass never returns a
  costlier solution, and that an applied same-route relocate with the insertion index
  past the removal index changes the cost by its evaluated gain. The code evaluates the
  insertion between \<open>rB[jb-1]\<close> and \<open>rB[jb]\<close> of the unmodified route but inserts at index
  \<open>jb\<close> after the deletion has shifted the later entries left. On \<open>kite_inst\<close> the 2-opt
  pass turns \<open>[0,1,2,3,4,0]\<close> (cost 48) into \<open>[0,1,2,4,3,0]\<close> (cost 44); relocate then
  evaluates move (0,1,0,3) with gain 2 and applies it as \<open>[0,2,4,1,3,0]\<close>, of cost 52.
\<close>

theorem local_search_step_raises_cost:
  "total_cost [[0, 1, 2, 3, 4, 0]] kite_inst kite_D = 48
   \<and> improve_two_opt_intra [[0, 1, 2, 3, 4, 0]] kite_D 1 = ([[0, 1, 2, 4, 3, 0]], True)
   \<and> total_cost [[0, 1, 2, 4, 3, 0]] kite_inst kite_D = 44
   \<and> relocate_search [[0, 1, 2, 4, 3, 0]] kite_inst kite_D = (2, Some (0, 1, 0, 3))
   \<and> local_search_step [[0, 1, 2, 3, 4, 0]] kite_inst kite_D = ([[0, 2, 4, 1, 3, 0]], True)
   \<and> total_cost [[0, 2, 4, 1, 3, 0]] kite_inst kite_D = 52"
  by code_simp

subsection \<open>C9: the time-window penalty\<close>

lemma tw_step_claimed:
  "window_pair (nodes ! snd e) \<Longrightarrow> tw_step nodes D st e = claimed_tw_step nodes D st e"
  by (auto simp: tw_step_def claimed_tw_step_def window_pair_def Let_def split: option.splits)

lemma foldl_tw_claimed:
  "\<forall>e\<in>set es. window_pair (nodes ! snd e)
     \<Longrightarrow> foldl (tw_step nodes D) st es = foldl (claimed_tw_step nodes D) st es"
  by (induction es arbitrary: st) (simp_all add: tw_step_claimed)

text \<open>
  Claim C9. For every route whose visited nodes carry a time window of the data model
  (both times with open not after close, or neither), \<open>time_window_penalty\<close> equals the
  lateness accumulated by the claimed simulation: the clock starts at 0, each edge
  advances it by its distance, a clock before window-open is advanced to window-open,
  an arrival after the close time adds arrival minus close, and each node's service
  duration advances the clock.
\<close>

theorem tw_penalty_matches_claim:
  assumes "\<forall>b\<in>set (tl route). window_pair (nodes ! b)"
  shows "time_window_penalty route nodes D = claimed_tw_penalty route nodes D"
proof -
  have "\<forall>e\<in>set (zip (butlast route) (tl route)). window_pair (nodes ! snd e)"
    using assms by (auto dest: set_zip_rightD)
  then show ?thesis
    by (simp add: time_window_penalty_def claimed_tw_penalty_def foldl_tw_claimed)
qed

theorem tw_penalty_matches_claim_witness:
  "time_window_penalty [0, 1, 2, 0] (all_nodes windows_inst) windows_D = 11
   \<and> claimed_tw_penalty [0, 1, 2, 0] (all_nodes windows_inst) windows_D = 11"
proof -
  have h: "\<forall>b\<in>set (tl [0, 1, 2, 0::nat]). window_pair (all_nodes windows_inst ! b)"
    by code_simp
  have v: "time_window_penalty [0, 1, 2, 0] (all_nodes windows_inst) windows_D = 11"
    by code_simp
  show ?thesis using tw_penalty_matches_claim[OF h, of windows_D] v by simp
qed

subsection \<open>C8: the fairness term\<close>

lemma bump_keys: "fst ` set (bump z acc) = insert z (fst ` set acc)"
  by (induction z acc rule: bump.induct) auto

lemma bump_distinct: "distinct (map fst acc) \<Longrightarrow> distinct (map fst (bump z acc))"
proof (induction z acc rule: bump.induct)
  case (1 z)
  show ?case by simp
next
  case (2 z k c kcs)
  then show ?case using bump_keys[of z kcs] by (auto simp: image_iff)
qed

lemma bump_map_of:
  "map_of (bump z acc) = (map_of acc)(z \<mapsto> (case map_of acc z of None \<Rightarrow> 1 | Some c \<Rightarrow> c + 1))"
  by (induction z acc rule: bump.induct) (auto simp: fun_eq_iff)

lemma fold_bump_keys: "fst ` set (fold bump vs acc) = set vs \<union> fst ` set acc"
  by (induction vs arbitrary: acc) (auto simp: bump_keys)

lemma fold_bump_distinct:
  "distinct (map fst acc) \<Longrightarrow> distinct (map fst (fold bump vs acc))"
  by (induction vs arbitrary: acc) (simp_all add: bump_distinct)

lemma fold_bump_map_of:
  "map_of (fold bump vs acc) z =
     (if z \<in> set vs
      then Some (count_list vs z + (case map_of acc z of None \<Rightarrow> 0 | Some c \<Rightarrow> c))
      else map_of acc z)"
proof (induction vs arbitrary: acc)
  case Nil
  show ?case by simp
next
  case (Cons v vs)
  show ?case
    by (simp add: Cons.IH bump_map_of split: option.splits)
qed

lemma mset_values_by_keys:
  "distinct (map fst kcs) \<Longrightarrow>
     mset (map snd kcs) = image_mset (\<lambda>k. the (map_of kcs k)) (mset (map fst kcs))"
proof (induction kcs)
  case Nil
  show ?case by simp
next
  case (Cons kc kcs)
  have "image_mset (\<lambda>k. the (map_of (kc # kcs) k)) (mset (map fst kcs))
          = image_mset (\<lambda>k. the (map_of kcs k)) (mset (map fst kcs))"
    using Cons.prems by (intro image_mset_cong) (auto simp: image_iff)
  then show ?case using Cons by (cases kc) simp
qed

lemma counts_mset:
  "mset (map (\<lambda>kc. real (snd kc)) (fold bump vs []))
     = image_mset (\<lambda>z. real (count_list vs z)) (mset_set (set vs))"
proof -
  let ?cs = "fold bump vs []"
  have d: "distinct (map fst ?cs)" by (rule fold_bump_distinct) simp
  have keys: "set (map fst ?cs) = set vs" using fold_bump_keys[of vs "[]"] by simp
  have km: "mset (map fst ?cs) = mset_set (set vs)"
    using d keys by (metis mset_set_set)
  have "mset (map snd ?cs) = image_mset (\<lambda>k. the (map_of ?cs k)) (mset_set (set vs))"
    using mset_values_by_keys[OF d] km by simp
  also have "\<dots> = image_mset (\<lambda>z. count_list vs z) (mset_set (set vs))"
    by (intro image_mset_cong) (simp add: fold_bump_map_of)
  finally have "mset (map snd ?cs) = image_mset (\<lambda>z. count_list vs z) (mset_set (set vs))" .
  then have "image_mset real (mset (map snd ?cs))
               = image_mset real (image_mset (\<lambda>z. count_list vs z) (mset_set (set vs)))"
    by simp
  then show ?thesis by (simp add: image_mset.compositionality comp_def)
qed

lemma variance_mset_cong: "mset xs = mset ys \<Longrightarrow> variance xs = variance ys"
proof -
  assume eq: "mset xs = mset ys"
  have len: "length xs = length ys" using eq by (rule mset_eq_length)
  have s: "sum_list (map f xs) = sum_list (map f ys)" for f :: "real \<Rightarrow> real"
  proof -
    have "sum_mset (mset (map f xs)) = sum_mset (mset (map f ys))" using eq by simp
    then show "sum_list (map f xs) = sum_list (map f ys)" by (simp only: sum_mset_sum_list)
  qed
  have s0: "sum_list xs = sum_list ys" using s[of "\<lambda>v. v"] by simp
  show ?thesis unfolding variance_def Let_def len s0 s ..
qed

lemma zone_id_range: "0 \<le> zone_id nodes 4 i \<and> zone_id nodes 4 i < 16"
proof -
  have "\<exists>xz yz. zone_id nodes 4 i = min (max yz 0) 3 * 4 + min (max xz 0) 3"
    by (simp add: zone_id_def Let_def) blast
  then show ?thesis by (auto simp: min_def max_def)
qed

lemma visited_zones_in_grid: "set (visited_zones routes nodes 4) \<subseteq> set grid_cells"
proof
  fix z assume "z \<in> set (visited_zones routes nodes 4)"
  then obtain i where z: "z = zone_id nodes 4 i" by (auto simp: visited_zones_def)
  have "0 \<le> z" "z < 16" using zone_id_range[of nodes i] z by simp_all
  then have "z = int (nat z)" "nat z < 16" by simp_all
  then show "z \<in> set grid_cells" unfolding grid_cells_def
    by (metis (no_types, lifting) atLeastLessThan_iff image_eqI le0 list.set_map set_upt)
qed

lemma count_list_pos_iff: "(0 < count_list xs x) = (x \<in> set xs)"
  using count_list_0_iff[of xs x] by auto

lemma occupied_cells_set:
  "set (occupied_cells routes nodes) = set (visited_zones routes nodes 4)"
  using visited_zones_in_grid[of routes nodes]
  by (auto simp: occupied_cells_def cell_visits_def count_list_pos_iff)

lemma occupied_cells_distinct: "distinct (occupied_cells routes nodes)"
  by (simp add: occupied_cells_def grid_cells_def distinct_map inj_on_def)

lemma fairness_penalty_occupied:
  "fairness_penalty routes nodes 4 = occupied_fairness_penalty routes nodes"
proof -
  let ?vs = "visited_zones routes nodes 4"
  let ?cs = "fold bump ?vs []"
  let ?oc = "occupied_cells routes nodes"
  have empty_iff: "(?cs = []) = (?oc = [])"
  proof -
    have "(?cs = []) = (fst ` set ?cs = {})" by simp
    also have "\<dots> = (set ?vs = {})" using fold_bump_keys[of ?vs "[]"] by simp
    also have "\<dots> = (set ?oc = {})" by (simp only: occupied_cells_set)
    finally show ?thesis by simp
  qed
  have "mset (map (\<lambda>z. real (cell_visits routes nodes z)) ?oc)
          = image_mset (\<lambda>z. real (count_list ?vs z)) (mset ?oc)"
    by (simp add: cell_visits_def)
  also have "mset ?oc = mset_set (set ?vs)"
    using occupied_cells_distinct[of routes nodes] occupied_cells_set[of routes nodes]
    by (metis mset_set_set)
  finally have "mset (map (\<lambda>kc. real (snd kc)) ?cs)
                  = mset (map (\<lambda>z. real (cell_visits routes nodes z)) ?oc)"
    using counts_mset[of ?vs] by simp
  then have "variance (map (\<lambda>kc. real (snd kc)) ?cs)
               = variance (map (\<lambda>z. real (cell_visits routes nodes z)) ?oc)"
    by (rule variance_mset_cong)
  then show ?thesis
    using empty_iff by (simp add: fairness_penalty_def occupied_fairness_penalty_def Let_def)
qed

text \<open>
  Claim C8, amended. For an instance with positive fairness weight, the fairness term
  added to the cost is the weight times the population variance of the per-cell visit
  counts over the cells of the 4 x 4 grid that hold at least one visit (cells without a
  visit are left out of the variance); with no customer in any route the term is zero.
\<close>

theorem fairness_term_occupied_cells:
  assumes "mu_fair inst > 0"
  shows "total_cost routes inst D
           = sum_list (map (\<lambda>r. route_distance r D) routes)
             + lambda_tw inst
               * (if lambda_tw inst > 0
                  then sum_list (map (\<lambda>r. time_window_penalty r (all_nodes inst) D) routes)
                  else 0)
             + mu_fair inst * occupied_fairness_penalty routes (all_nodes inst)
         \<and> (filter (\<lambda>i. i \<noteq> 0) (concat routes) = []
              \<longrightarrow> occupied_fairness_penalty routes (all_nodes inst) = 0)"
proof -
  have zero: "filter (\<lambda>i. i \<noteq> 0) (concat routes) = []
                \<Longrightarrow> occupied_fairness_penalty routes (all_nodes inst) = 0"
  proof -
    assume "filter (\<lambda>i. i \<noteq> 0) (concat routes) = []"
    then have "visited_zones routes (all_nodes inst) 4 = []" by (simp add: visited_zones_def)
    then have "fairness_penalty routes (all_nodes inst) 4 = 0"
      by (simp add: fairness_penalty_def)
    then show ?thesis by (simp add: fairness_penalty_occupied)
  qed
  show ?thesis
    using assms zero by (simp add: total_cost_def Let_def fairness_penalty_occupied)
qed

theorem fairness_term_occupied_cells_witness:
  "total_cost [[0, 1, 2, 0], [0, 3, 0]] spread_inst spread_D = 57 / 2
   \<and> occupied_fairness_penalty [[0, 1, 2, 0], [0, 3, 0]] (all_nodes spread_inst) = 1 / 4
   \<and> occupied_fairness_penalty [[0, 0]] (all_nodes spread_inst) = 0"
proof -
  have h: "mu_fair spread_inst > 0" by code_simp
  have z: "filter (\<lambda>i. i \<noteq> 0) (concat [[0, 0::nat]]) = []" by simp
  have v1: "occupied_fairness_penalty [[0, 1, 2, 0], [0, 3, 0]] (all_nodes spread_inst) = 1 / 4"
    by code_simp
  have v2: "sum_list (map (\<lambda>r. route_distance r spread_D) [[0, 1, 2, 0], [0, 3, 0]]) = 28"
    by code_simp
  have l: "lambda_tw spread_inst = 0" and m: "mu_fair spread_inst = 2" by code_simp+
  show ?thesis
    using fairness_term_occupied_cells[OF h, of "[[0, 1, 2, 0], [0, 3, 0]]" spread_D]
          fairness_term_occupied_cells[OF h, of "[[0, 0]]" spread_D] z v1 v2 l m
    by simp
qed

text \<open>
  Claim C8 as stated fails: with one customer the code's dictionary holds one count, of
  variance 0, so no fairness term is added (the cost is the distance 12), while the
  variance over all sixteen cells, fifteen of them with zero visits, is 15/256.
\<close>

theorem fairness_all_cells_counterexample:
  "mu_fair corner_inst > 0
   \<and> total_cost [[0, 1, 0]] corner_inst corner_D = 12
   \<and> sum_list (map (\<lambda>r. route_distance r corner_D) [[0, 1, 0]])
       + mu_fair corner_inst * claimed_fairness_penalty [[0, 1, 0]] (all_nodes corner_inst)
       = 12 + 15 / 256"
  by code_simp

subsection \<open>C6: annealing returns a solution no costlier than its input\<close>

lemma sa_init_inv: "sa_best_inv inst D (total_cost routes inst D) (sa_init routes inst D T0)"
  by (simp add: sa_best_inv_def sa_init_def)

lemma sa_iter_inv:
  "sa_best_inv inst D c0 st \<Longrightarrow> sa_best_inv inst D c0 (sa_iter inst D alpha rng st)"
  by (auto simp: sa_best_inv_def sa_iter_def Let_def)

lemma sa_loop_returns:
  "\<exists>t\<in>set ts. t_end \<le> t \<Longrightarrow> \<exists>st'. sa_loop inst D alpha rng t_end ts st = Some st'"
  by (induction ts arbitrary: st) auto

lemma sa_loop_inv:
  "sa_loop inst D alpha rng t_end ts st = Some st' \<Longrightarrow> sa_best_inv inst D c0 st
     \<Longrightarrow> sa_best_inv inst D c0 st'"
proof (induction ts arbitrary: st)
  case Nil
  then show ?case by simp
next
  case (Cons t ts)
  show ?case
  proof (cases "t < t_end")
    case True
    then have "sa_loop inst D alpha rng t_end ts (sa_iter inst D alpha rng st) = Some st'"
      using Cons.prems(1) by simp
    then show ?thesis using Cons.IH sa_iter_inv[OF Cons.prems(2)] by blast
  next
    case False
    then show ?thesis using Cons.prems by simp
  qed
qed

text \<open>
  Claim C6. Whatever the time budget, the temperature schedule and the random draws: when
  the clock reaches the deadline (one of the readings at the loop tests is not before
  it), \<open>simulated_annealing\<close> returns a solution, and its total cost is at most the
  total cost of the input solution.
\<close>

theorem annealing_never_worse:
  assumes "\<exists>t\<in>set ts. t0 + time_budget_s \<le> t"
  shows "\<exists>best. simulated_annealing routes inst D time_budget_s T0 alpha rng (t0 # ts) = Some best
              \<and> total_cost best inst D \<le> total_cost routes inst D"
proof -
  obtain st' where
    run: "sa_loop inst D alpha rng (t0 + time_budget_s) ts (sa_init routes inst D T0) = Some st'"
    using sa_loop_returns[OF assms] by blast
  have "sa_best_inv inst D (total_cost routes inst D) st'"
    using sa_loop_inv[OF run sa_init_inv] .
  then have "total_cost (sa_best st') inst D \<le> total_cost routes inst D"
    by (simp add: sa_best_inv_def)
  then show ?thesis using run by (simp add: simulated_annealing_def)
qed

theorem annealing_never_worse_witness:
  "simulated_annealing [[0, 1, 0], [0, 2, 0]] line_inst line_D 10 1 (995 / 1000) (\<lambda>_. 0)
     [0, 1, 2, 11] = Some [[0, 0], [0, 1, 2, 0]]
   \<and> total_cost [[0, 0], [0, 1, 2, 0]] line_inst line_D
       \<le> total_cost [[0, 1, 0], [0, 2, 0]] line_inst line_D"
proof -
  have h: "\<exists>t\<in>set [1, 2, 11::real]. 0 + 10 \<le> t" by simp
  have c0: "total_cost [[0, 1, 0], [0, 2, 0]] line_inst line_D = 60" by code_simp
  have r1: "relocate_best_improvement [[0, 1, 0], [0, 2, 0]] line_inst line_D
              = ([[0, 0], [0, 1, 2, 0]], True)" by code_simp
  have c1: "total_cost [[0, 0], [0, 1, 2, 0]] line_inst line_D = 40" by code_simp
  have r2: "improve_two_opt_intra [[0, 0], [0, 1, 2, 0]] line_D 1
              = ([[0, 0], [0, 1, 2, 0]], False)" by code_simp
  have run: "simulated_annealing [[0, 1, 0], [0, 2, 0]] line_inst line_D 10 1 (995 / 1000)
               (\<lambda>_. 0) [0, 1, 2, 11] = Some [[0, 0], [0, 1, 2, 0]]"
    using c0 r1 c1 r2
    by (simp add: simulated_annealing_def sa_init_def sa_iter_def Let_def)
  show ?thesis
    using annealing_never_worse[OF h, of "[[0, 1, 0], [0, 2, 0]]" line_inst line_D 1
            "995 / 1000" "\<lambda>_. 0"] run
    by simp
qed

subsection \<open>Sums over updated lists, customers and demand of a route\<close>

lemma sum_list_map_update:
  "i < length xs \<Longrightarrow>
     sum_list (map f (xs[i := y])) + f (xs ! i) = sum_list (map f xs) + (f y :: 'b::comm_monoid_add)"
proof (induction xs arbitrary: i)
  case Nil
  then show ?case by simp
next
  case (Cons x xs)
  show ?case
  proof (cases i)
    case 0
    then show ?thesis by (simp add: ac_simps)
  next
    case (Suc n)
    then have "sum_list (map f (xs[n := y])) + f (xs ! n) = sum_list (map f xs) + f y"
      using Cons by simp
    then show ?thesis using Suc by (simp add: add.assoc)
  qed
qed

lemma customers_served_sum: "customers_served routes = sum_list (map route_customers routes)"
  by (induction routes) (simp_all add: customers_served_def route_customers_def)

lemma route_customers_append: "route_customers (xs @ ys) = route_customers xs + route_customers ys"
  by (simp add: route_customers_def)

lemma route_customers_rev: "route_customers (rev r) = route_customers r"
  by (simp add: route_customers_def flip: rev_filter)

lemma route_customers_dead: "route_customers [0, 0] = {#}"
  by (simp add: route_customers_def)

lemma depot_ended_rev: "depot_ended r \<Longrightarrow> depot_ended (rev r)"
proof -
  assume d: "depot_ended r"
  then have "r \<noteq> []" by (auto simp: depot_ended_def)
  then show ?thesis using d by (simp add: depot_ended_def hd_rev last_rev)
qed

lemma depot_ended_snoc: "depot_ended r \<Longrightarrow> r = butlast r @ [0] \<and> butlast r \<noteq> []"
proof -
  assume d: "depot_ended r"
  then have ne: "r \<noteq> []" by (auto simp: depot_ended_def)
  have "r = butlast r @ [last r]" using ne by simp
  moreover have "2 \<le> length r" and "last r = 0" using d by (simp_all add: depot_ended_def)
  moreover from this have "butlast r \<noteq> []" by (cases r) auto
  ultimately show ?thesis by simp
qed

lemma depot_ended_cons: "depot_ended r \<Longrightarrow> r = 0 # tl r \<and> tl r \<noteq> []"
  by (cases r) (auto simp: depot_ended_def)

lemma route_customers_butlast: "depot_ended r \<Longrightarrow> route_customers (butlast r) = route_customers r"
proof -
  assume "depot_ended r"
  then have "r = butlast r @ [0]" using depot_ended_snoc by blast
  then have "route_customers r = route_customers (butlast r) + route_customers [0]"
    by (metis route_customers_append)
  then show ?thesis by (simp add: route_customers_def)
qed

lemma route_customers_tl: "depot_ended r \<Longrightarrow> route_customers (tl r) = route_customers r"
proof -
  assume "depot_ended r"
  then have "r = [0] @ tl r" using depot_ended_cons by fastforce
  then have "route_customers r = route_customers [0] + route_customers (tl r)"
    by (metis route_customers_append)
  then show ?thesis by (simp add: route_customers_def)
qed





lemma depot_ended_join:
  assumes "depot_ended a" and "depot_ended b"
  shows "depot_ended (butlast a @ tl b)"
proof -
  obtain a' where a: "a = 0 # a'" "a' \<noteq> []"
    using depot_ended_cons[OF assms(1)] by metis
  have b: "tl b \<noteq> []" "last b = 0" "length b \<ge> 2"
    using depot_ended_cons[OF assms(2)] assms(2) by (auto simp: depot_ended_def)
  have "butlast a = 0 # butlast a'" using a by simp
  moreover have "last (tl b) = last b" using b(1) by (simp add: last_tl)
  ultimately show ?thesis using a b by (auto simp: depot_ended_def)
qed

lemma set_update2:
  "r \<in> set (xs[a := n, b := m]) \<Longrightarrow> r = n \<or> r = m \<or> r \<in> set xs"
  by (meson insertE set_update_subset_insert subsetD)

lemma customers_served_merge:
  assumes a: "a < length routes" and b: "b < length routes" and ab: "a \<noteq> b"
    and n: "route_customers n = route_customers (routes ! a) + route_customers (routes ! b)"
  shows "customers_served (routes[a := n, b := [0, 0]]) = customers_served routes"
proof -
  let ?S = "\<lambda>rs. sum_list (map route_customers rs)"
  have 1: "?S (routes[a := n]) + route_customers (routes ! a) = ?S routes + route_customers n"
    using a by (rule sum_list_map_update)
  have "?S (routes[a := n, b := [0, 0]]) + route_customers (routes[a := n] ! b)
          = ?S (routes[a := n]) + route_customers [0, 0]"
    using b by (intro sum_list_map_update) simp
  then have 2: "?S (routes[a := n, b := [0, 0]]) + route_customers (routes ! b) = ?S (routes[a := n])"
    using ab by (simp add: route_customers_dead)
  have "?S (routes[a := n, b := [0, 0]]) + (route_customers (routes ! b) + route_customers (routes ! a))
          = ?S routes + route_customers n"
    using 1 2 by (simp add: add.assoc[symmetric])
  then have "?S (routes[a := n, b := [0, 0]]) = ?S routes"
    using n by (simp add: ac_simps)
  then show ?thesis by (simp add: customers_served_sum)
qed

subsection \<open>The merge loop of the construction\<close>

lemma feasible_mergeD:
  "feasible_merge inst st a b i j \<Longrightarrow>
     a < length (cw_routes st) \<and> b < length (cw_routes st)
     \<and> route_demand (cw_routes st ! a) (all_nodes inst)
         + route_demand (cw_routes st ! b) (all_nodes inst) \<le> vehicle_capacity inst"
  by (auto simp: feasible_merge_def Let_def split: if_splits)

text \<open>What one step does to the route slots: nothing, or one merge of two distinct slots
  whose joint load fits.\<close>

lemma cw_step_routes:
  "cw_routes (cw_step inst st sij) = cw_routes st
   \<or> (\<exists>a b ra rb. a < length (cw_routes st) \<and> b < length (cw_routes st) \<and> a \<noteq> b
         \<and> (ra = cw_routes st ! a \<or> ra = rev (cw_routes st ! a))
         \<and> (rb = cw_routes st ! b \<or> rb = rev (cw_routes st ! b))
         \<and> route_demand (cw_routes st ! a) (all_nodes inst)
             + route_demand (cw_routes st ! b) (all_nodes inst) \<le> vehicle_capacity inst
         \<and> cw_routes (cw_step inst st sij) = (cw_routes st)[a := butlast ra @ tl rb, b := [0, 0]])"
proof -
  let ?i = "fst (snd sij)" and ?j = "snd (snd sij)"
  let ?a = "cw_route_of st ?i" and ?b = "cw_route_of st ?j"
  show ?thesis
  proof (cases "?a \<noteq> ?b \<and> feasible_merge inst st ?a ?b ?i ?j")
    case False
    then have "cw_step inst st sij = st" by (auto simp: cw_step_def Let_def)
    then show ?thesis by simp
  next
    case True
    let ?ra = "if fst (cw_ends st ?a) = ?i then rev (cw_routes st ! ?a) else cw_routes st ! ?a"
    let ?rb = "if snd (cw_ends st ?b) = ?j then rev (cw_routes st ! ?b) else cw_routes st ! ?b"
    have upd: "cw_routes (cw_step inst st sij)
                 = (cw_routes st)[?a := butlast ?ra @ tl ?rb, ?b := [0, 0]]"
      using True by (simp add: cw_step_def Let_def)
    have f: "?a < length (cw_routes st)" "?b < length (cw_routes st)"
      "route_demand (cw_routes st ! ?a) (all_nodes inst)
         + route_demand (cw_routes st ! ?b) (all_nodes inst) \<le> vehicle_capacity inst"
      using True feasible_mergeD by blast+
    have "?ra = cw_routes st ! ?a \<or> ?ra = rev (cw_routes st ! ?a)" by simp
    moreover have "?rb = cw_routes st ! ?b \<or> ?rb = rev (cw_routes st ! ?b)" by simp
    ultimately show ?thesis using True f upd by blast
  qed
qed

lemma cw_step_inv:
  assumes "cw_inv inst (cw_routes st)"
  shows "cw_inv inst (cw_routes (cw_step inst st sij))"
proof -
  let ?rs = "cw_routes st"
  consider (same) "cw_routes (cw_step inst st sij) = ?rs"
    | (merge) a b ra rb where "a < length ?rs" "b < length ?rs" "a \<noteq> b"
        "ra = ?rs ! a \<or> ra = rev (?rs ! a)" "rb = ?rs ! b \<or> rb = rev (?rs ! b)"
        "cw_routes (cw_step inst st sij) = ?rs[a := butlast ra @ tl rb, b := [0, 0]]"
    using cw_step_routes[of inst st sij] by blast
  then show ?thesis
  proof cases
    case same
    then show ?thesis using assms by simp
  next
    case merge
    note a = merge(1) and b = merge(2) and ab = merge(3) and ra = merge(4) and rb = merge(5)
      and upd = merge(6)
    have da: "depot_ended (?rs ! a)" and db: "depot_ended (?rs ! b)"
      using assms a b by (auto simp: cw_inv_def)
    have dra: "depot_ended ra" and drb: "depot_ended rb"
      using ra rb da db depot_ended_rev by auto
    have cra: "route_customers ra = route_customers (?rs ! a)"
      using ra route_customers_rev by auto
    have crb: "route_customers rb = route_customers (?rs ! b)"
      using rb route_customers_rev by auto
    have new: "depot_ended (butlast ra @ tl rb)" using dra drb by (rule depot_ended_join)
    have cnew: "route_customers (butlast ra @ tl rb)
                  = route_customers (?rs ! a) + route_customers (?rs ! b)"
      using dra drb cra crb
      by (simp add: route_customers_append route_customers_butlast route_customers_tl)
    have served: "customers_served (?rs[a := butlast ra @ tl rb, b := [0, 0]]) = customers_served ?rs"
      using a b ab cnew by (rule customers_served_merge)
    have "depot_ended r" if "r \<in> set (?rs[a := butlast ra @ tl rb, b := [0, 0]])" for r
      using set_update2[OF that] new assms by (auto simp: cw_inv_def depot_ended_def)
    then show ?thesis using served assms unfolding upd by (simp add: cw_inv_def)
  qed
qed


lemma cw_fold_inv:
  "cw_inv inst (cw_routes st) \<Longrightarrow> cw_inv inst (cw_routes (foldl (cw_step inst) st ps))"
  by (induction ps arbitrary: st) (simp_all add: cw_step_inv)


lemma singletons_served:
  "0 \<notin> set xs \<Longrightarrow> customers_served (map (\<lambda>i. [0, i, 0]) xs) = mset xs"
  by (induction xs) (auto simp: customers_served_def)

lemma nodes_idx_mem: "(i \<in> set (nodes_idx inst)) = (1 \<le> i \<and> i \<le> length (customers inst))"
  by (simp only: nodes_idx_def set_upt) auto

lemma cw_init_inv: "cw_inv inst (cw_routes (cw_init inst))"
proof -
  have "0 \<notin> set (nodes_idx inst)" by (simp add: nodes_idx_mem)
  then have "customers_served (map (\<lambda>i. [0, i, 0]) (nodes_idx inst)) = mset (nodes_idx inst)"
    by (rule singletons_served)
  then show ?thesis by (auto simp: cw_inv_def cw_init_def depot_ended_def)
qed


lemma cw_merged_inv: "cw_inv inst (cw_routes (cw_merged inst D))"
  unfolding cw_merged_def by (rule cw_fold_inv[OF cw_init_inv])


lemma customers_served_alive:
  "customers_served (filter (\<lambda>r. r \<noteq> [0, 0]) routes) = customers_served routes"
  by (induction routes) (auto simp: customers_served_def)

lemma cw_alive_partition: "partition_ok inst (cw_alive inst D)"
  using cw_merged_inv[of inst D]
  by (simp add: partition_ok_def cw_alive_def customers_served_alive cw_inv_def)





lemma clarke_wright_partition:
  "int (length (cw_alive inst D)) \<le> num_vehicles inst
     \<Longrightarrow> partition_ok inst (clarke_wright inst D)"
  using cw_alive_partition[of inst D] by (simp add: clarke_wright_def Let_def)

subsection \<open>The solution invariants in terms of the entries of the routes\<close>

lemma mset_concat_sum: "mset (concat rs) = sum_list (map mset rs)"
  by (induction rs) simp_all

lemma customers_served_entries:
  "customers_served rs = filter_mset (\<lambda>v. v \<noteq> 0) (mset (concat rs))"
  by (simp add: customers_served_def)




lemma map_mset_entries: "map mset rs' = map mset rs \<Longrightarrow> mset (concat rs') = mset (concat rs)"
  by (simp add: mset_concat_sum)


subsection \<open>The 2-opt pass keeps the entries of every route\<close>

lemma two_opt_candidates_range:
  "(i, k) \<in> set (two_opt_candidates r) \<Longrightarrow> 1 \<le> i \<and> i < k \<and> k + 1 < length r"
  by (auto simp: two_opt_candidates_def)

lemma two_opt_fold_move:
  "snd (foldl (two_opt_pick r_idx r D) b cs) = Some mv \<Longrightarrow>
     snd b = Some mv \<or> (\<exists>ik\<in>set cs. mv = (r_idx, fst ik, snd ik))"
proof (induction cs arbitrary: b)
  case Nil
  then show ?case by simp
next
  case (Cons c cs)
  from Cons.IH[OF Cons.prems[simplified]]
  show ?case by (auto simp: two_opt_pick_def Let_def split: if_splits)
qed

lemma two_opt_best_move:
  assumes "snd (two_opt_best r_idx r D) = Some (rr, i, k)"
  shows "rr = r_idx \<and> i < k \<and> k + 1 < length r"
proof -
  from two_opt_fold_move[OF assms[unfolded two_opt_best_def]]
  obtain ik where "ik \<in> set (two_opt_candidates r)" "(rr, i, k) = (r_idx, fst ik, snd ik)"
    by auto
  then show ?thesis using two_opt_candidates_range[of i k r] by auto
qed

lemma mset_apply_two_opt: "i \<le> k + 1 \<Longrightarrow> mset (apply_two_opt r i k) = mset r"
proof -
  assume ik: "i \<le> k + 1"
  have "take i (take (k + 1) r) = take i r" using ik by (simp add: min_def)
  then have "mset (take i r) + mset (drop i (take (k + 1) r)) = mset (take (k + 1) r)"
    by (metis append_take_drop_id mset_append)
  moreover have "mset (take (k + 1) r) + mset (drop (k + 1) r) = mset r"
    by (metis append_take_drop_id mset_append)
  ultimately have "mset (take i r) + mset (drop i (take (k + 1) r)) + mset (drop (k + 1) r) = mset r"
    by simp
  then show ?thesis by (simp add: apply_two_opt_def add.assoc)
qed

lemma two_opt_route_step_mset:
  assumes "r_idx < length (fst st)"
  shows "map mset (fst (two_opt_route_step D st r_idx)) = map mset (fst st)"
proof (cases "snd (two_opt_best r_idx (fst st ! r_idx) D)")
  case None
  then show ?thesis by (simp add: two_opt_route_step_def)
next
  case (Some mv)
  obtain rr i k where mv: "mv = (rr, i, k)" by (cases mv) auto
  have m: "rr = r_idx" "i < k" using two_opt_best_move[of r_idx "fst st ! r_idx" D rr i k] Some mv by auto
  have "mset (apply_two_opt (fst st ! rr) i k) = mset (fst st ! rr)"
    using m(2) by (intro mset_apply_two_opt) simp
  then have "map mset ((fst st)[rr := apply_two_opt (fst st ! rr) i k]) = map mset (fst st)"
    using assms m(1) by (simp add: map_update) (metis list_update_id nth_map)
  then show ?thesis using Some mv by (simp add: two_opt_route_step_def)
qed

lemma two_opt_fold_mset:
  "\<forall>i\<in>set is. i < length (fst st) \<Longrightarrow>
     map mset (fst (foldl (two_opt_route_step D) st is)) = map mset (fst st)"
proof (induction "is" arbitrary: st)
  case Nil
  show ?case by simp
next
  case (Cons i "is")
  have step: "map mset (fst (two_opt_route_step D st i)) = map mset (fst st)"
    using Cons.prems by (intro two_opt_route_step_mset) simp
  then have "length (fst (two_opt_route_step D st i)) = length (fst st)"
    by (metis length_map)
  then have "\<forall>j\<in>set is. j < length (fst (two_opt_route_step D st i))"
    using Cons.prems by simp
  from Cons.IH[OF this] step show ?case by simp
qed

lemma two_opt_pass_mset: "map mset (fst (two_opt_pass routes D)) = map mset routes"
  using two_opt_fold_mset[of "[0 ..< length routes]" "(routes, False)" D]
  by (simp add: two_opt_pass_def)

lemma two_opt_passes_mset: "map mset (fst (two_opt_passes n routes D imp)) = map mset routes"
  by (induction n arbitrary: routes imp) (simp_all add: Let_def two_opt_pass_mset)

lemma improve_two_opt_mset:
  "map mset (fst (improve_two_opt_intra routes D n)) = map mset routes"
  by (simp add: improve_two_opt_intra_def two_opt_passes_mset)

subsection \<open>Relocate moves one entry\<close>

lemma relocate_candidates_range:
  "(ra, ia, rb, jb) \<in> set (relocate_candidates routes nodes cap) \<Longrightarrow>
     ra < length routes \<and> ia < length (routes ! ra) \<and> rb < length routes
     \<and> (ra \<noteq> rb \<longrightarrow> route_demand (routes ! rb) nodes + demand (nodes ! (routes ! ra ! ia)) \<le> cap)"
  by (auto simp: relocate_candidates_def split: if_splits)

lemma relocate_fold_move:
  "snd (foldl (relocate_pick routes D) b cs) = Some mv \<Longrightarrow> snd b = Some mv \<or> mv \<in> set cs"
proof (induction cs arbitrary: b)
  case Nil
  then show ?case by simp
next
  case (Cons c cs)
  from Cons.IH[OF Cons.prems[simplified]]
  show ?case by (auto simp: relocate_pick_def Let_def split: if_splits)
qed

lemma relocate_search_move:
  "snd (relocate_search routes inst D) = Some mv \<Longrightarrow>
     mv \<in> set (relocate_candidates routes (all_nodes inst) (vehicle_capacity inst))"
  using relocate_fold_move[of routes D "(0, None)" _ mv] by (auto simp: relocate_search_def)

lemma mset_del_at: "ia < length r \<Longrightarrow> add_mset (r ! ia) (mset (del_at ia r)) = mset r"
proof -
  assume "ia < length r"
  then have "r = take ia r @ r ! ia # drop (Suc ia) r" by (rule id_take_nth_drop)
  then have "mset r = mset (take ia r) + add_mset (r ! ia) (mset (drop (Suc ia) r))"
    by (metis mset_append mset.simps(2))
  then show ?thesis by (simp add: del_at_def)
qed

lemma mset_insert_at: "mset (insert_at jb c r) = add_mset c (mset r)"
proof -
  have "mset (take jb r) + mset (drop jb r) = mset r"
    by (metis append_take_drop_id mset_append)
  then show ?thesis by (simp add: insert_at_def)
qed

text \<open>The routes after the move, without the clean-up comprehension, which is the identity.\<close>

lemma relocate_apply_eq:
  "relocate_apply routes (ra, ia, rb, jb) =
     (routes[ra := del_at ia (routes ! ra)])
       [rb := insert_at jb (routes ! ra ! ia) (routes[ra := del_at ia (routes ! ra)] ! rb)]"
  by (simp add: Let_def)

lemma relocate_apply_entries:
  assumes "ra < length routes" and "ia < length (routes ! ra)" and "rb < length routes"
  shows "mset (concat (relocate_apply routes (ra, ia, rb, jb))) = mset (concat routes)"
proof -
  let ?c = "routes ! ra ! ia"
  let ?r1 = "routes[ra := del_at ia (routes ! ra)]"
  let ?r2 = "?r1[rb := insert_at jb ?c (?r1 ! rb)]"
  let ?S = "\<lambda>rs. sum_list (map mset rs)"
  have 1: "?S ?r1 + mset (routes ! ra) = ?S routes + mset (del_at ia (routes ! ra))"
    using assms(1) by (rule sum_list_map_update)
  have "?S ?r2 + mset (?r1 ! rb) = ?S ?r1 + mset (insert_at jb ?c (?r1 ! rb))"
    using assms(3) by (intro sum_list_map_update) simp
  then have 2: "?S ?r2 = ?S ?r1 + {#?c#}"
    by (simp add: mset_insert_at)
  have "?S ?r2 + mset (routes ! ra) = ?S routes + add_mset ?c (mset (del_at ia (routes ! ra)))"
    using 1 2 by (simp add: ac_simps)
  then have "?S ?r2 = ?S routes"
    using mset_del_at[OF assms(2)] by simp
  then show ?thesis by (simp add: Let_def mset_concat_sum)
qed

lemma relocate_entries:
  "mset (concat (fst (relocate_best_improvement routes inst D))) = mset (concat routes)"
proof (cases "snd (relocate_search routes inst D)")
  case None
  then show ?thesis by (simp add: relocate_best_improvement_def)
next
  case (Some mv)
  obtain ra ia rb jb where mv: "mv = (ra, ia, rb, jb)" by (cases mv) auto
  have "ra < length routes \<and> ia < length (routes ! ra) \<and> rb < length routes"
    using relocate_search_move[OF Some] relocate_candidates_range mv by blast
  then have "mset (concat (relocate_apply routes mv)) = mset (concat routes)"
    using relocate_apply_entries mv by blast
  then show ?thesis using Some by (simp add: relocate_best_improvement_def Let_def)
qed





subsection \<open>Annealing keeps what both operators keep\<close>

lemma sa_iter_preserves:
  assumes "\<And>r. P r \<Longrightarrow> P (fst (improve_two_opt_intra r D 1))"
    and "\<And>r. P r \<Longrightarrow> P (fst (relocate_best_improvement r inst D))"
    and "P (sa_best st)" and "P (sa_cur st)"
  shows "P (sa_best (sa_iter inst D alpha rng st)) \<and> P (sa_cur (sa_iter inst D alpha rng st))"
  using assms by (simp add: sa_iter_def Let_def)

lemma sa_loop_preserves:
  assumes two: "\<And>r. P r \<Longrightarrow> P (fst (improve_two_opt_intra r D 1))"
    and rel: "\<And>r. P r \<Longrightarrow> P (fst (relocate_best_improvement r inst D))"
  shows "sa_loop inst D alpha rng t_end ts st = Some st' \<Longrightarrow> P (sa_best st) \<Longrightarrow> P (sa_cur st)
           \<Longrightarrow> P (sa_best st')"
proof (induction ts arbitrary: st)
  case Nil
  then show ?case by simp
next
  case (Cons t ts)
  show ?case
  proof (cases "t < t_end")
    case True
    then have run: "sa_loop inst D alpha rng t_end ts (sa_iter inst D alpha rng st) = Some st'"
      using Cons.prems(1) by simp
    have "P (sa_best (sa_iter inst D alpha rng st)) \<and> P (sa_cur (sa_iter inst D alpha rng st))"
      using two rel Cons.prems(2,3) by (rule sa_iter_preserves)
    then show ?thesis using Cons.IH[OF run] by blast
  next
    case False
    then show ?thesis using Cons.prems by simp
  qed
qed

lemma annealing_preserves:
  assumes two: "\<And>r. P r \<Longrightarrow> P (fst (improve_two_opt_intra r D 1))"
    and rel: "\<And>r. P r \<Longrightarrow> P (fst (relocate_best_improvement r inst D))"
    and init: "P routes"
    and clock: "\<exists>t\<in>set ts. t0 + time_budget_s \<le> t"
  shows "\<exists>best. simulated_annealing routes inst D time_budget_s T0 alpha rng (t0 # ts) = Some best
              \<and> P best"
proof -
  obtain st' where
    run: "sa_loop inst D alpha rng (t0 + time_budget_s) ts (sa_init routes inst D T0) = Some st'"
    using sa_loop_returns[OF clock] by blast
  have "P (sa_best st')"
    using two rel run by (rule sa_loop_preserves) (simp_all add: sa_init_def init)
  then show ?thesis using run by (simp add: simulated_annealing_def)
qed

subsection \<open>C3: the partition invariant\<close>

lemma two_opt_partition:
  "partition_ok inst routes \<Longrightarrow> partition_ok inst (fst (improve_two_opt_intra routes D n))"
  using map_mset_entries[OF improve_two_opt_mset[of routes D n]]
  by (simp add: partition_ok_def customers_served_entries)

lemma relocate_partition:
  "partition_ok inst routes \<Longrightarrow> partition_ok inst (fst (relocate_best_improvement routes inst D))"
  by (simp add: partition_ok_def customers_served_entries relocate_entries)

text \<open>
  Claim C3, amended. The construction returns a partition of the customers whenever
  the routes that survive the merge loop do not outnumber the vehicles (otherwise it
  drops whole routes, with their customers). A 2-opt pass and a relocate pass return a
  partition when given one, and so does annealing, which returns whenever the clock
  reaches the deadline.
\<close>

theorem partition_invariant:
  "(int (length (cw_alive inst D)) \<le> num_vehicles inst
      \<longrightarrow> partition_ok inst (clarke_wright inst D))
   \<and> (partition_ok inst routes
        \<longrightarrow> partition_ok inst (fst (improve_two_opt_intra routes D n))
            \<and> partition_ok inst (fst (relocate_best_improvement routes inst D)))
   \<and> (partition_ok inst routes \<and> (\<exists>t\<in>set ts. t0 + time_budget_s \<le> t)
        \<longrightarrow> (\<exists>best. simulated_annealing routes inst D time_budget_s T0 alpha rng (t0 # ts)
                        = Some best
                    \<and> partition_ok inst best))"
proof (intro conjI impI)
  assume "int (length (cw_alive inst D)) \<le> num_vehicles inst"
  then show "partition_ok inst (clarke_wright inst D)" by (rule clarke_wright_partition)
next
  assume "partition_ok inst routes"
  then show "partition_ok inst (fst (improve_two_opt_intra routes D n))"
    by (rule two_opt_partition)
next
  assume "partition_ok inst routes"
  then show "partition_ok inst (fst (relocate_best_improvement routes inst D))"
    by (rule relocate_partition)
next
  assume a: "partition_ok inst routes \<and> (\<exists>t\<in>set ts. t0 + time_budget_s \<le> t)"
  show "\<exists>best. simulated_annealing routes inst D time_budget_s T0 alpha rng (t0 # ts) = Some best
              \<and> partition_ok inst best"
  proof (rule annealing_preserves)
    show "partition_ok inst routes" using a by simp
    show "\<exists>t\<in>set ts. t0 + time_budget_s \<le> t" using a by simp
  qed (simp_all add: two_opt_partition relocate_partition)
qed

theorem partition_invariant_witness:
  "clarke_wright kite_inst kite_D = [[0, 3, 4, 1, 2, 0]]
   \<and> partition_ok kite_inst (clarke_wright kite_inst kite_D)
   \<and> partition_ok kite_inst (fst (improve_two_opt_intra [[0, 3, 4, 1, 2, 0]] kite_D 1))
   \<and> partition_ok kite_inst (fst (relocate_best_improvement [[0, 3, 4, 1, 2, 0]] kite_inst kite_D))
   \<and> (\<exists>best. simulated_annealing [[0, 3, 4, 1, 2, 0]] kite_inst kite_D 10 1 (995 / 1000)
                 (\<lambda>_. 0) [0, 1, 2, 11] = Some best
             \<and> partition_ok kite_inst best)"
proof -
  have cw: "clarke_wright kite_inst kite_D = [[0, 3, 4, 1, 2, 0]]" by code_simp
  have alive: "int (length (cw_alive kite_inst kite_D)) \<le> num_vehicles kite_inst" by code_simp
  have idx: "nodes_idx kite_inst = [1, 2, 3, 4]" by code_simp
  have p: "partition_ok kite_inst [[0, 3, 4, 1, 2, 0]]"
    by (simp add: partition_ok_def customers_served_def idx)
  have h: "\<exists>t\<in>set [1, 2, 11::real]. 0 + 10 \<le> t" by simp
  show ?thesis
    using partition_invariant[of kite_inst kite_D "[[0, 3, 4, 1, 2, 0]]" 1 "[1, 2, 11]" 0 10
            1 "995 / 1000" "\<lambda>_. 0"] cw alive p h
    by simp
qed

text \<open>
  Claim C3 as stated fails for the construction: in \<open>tight_inst\<close> the two customers
  (demand 3 each, capacity 5) cannot share a route and there is one vehicle, so the
  construction keeps \<open>[0, 1, 0]\<close> and drops the route of customer 2.
\<close>

theorem partition_pruned_counterexample:
  "vehicle_capacity tight_inst = 5 \<and> map demand (customers tight_inst) = [3, 3]
   \<and> cw_alive tight_inst line_D = [[0, 1, 0], [0, 2, 0]]
   \<and> clarke_wright tight_inst line_D = [[0, 1, 0]]
   \<and> \<not> partition_ok tight_inst (clarke_wright tight_inst line_D)"
proof -
  have cw: "clarke_wright tight_inst line_D = [[0, 1, 0]]" by code_simp
  have idx: "nodes_idx tight_inst = [1, 2]" by code_simp
  have "\<not> partition_ok tight_inst [[0, 1, 0]]"
    by (simp add: partition_ok_def customers_served_def idx)
  moreover have "vehicle_capacity tight_inst = 5 \<and> map demand (customers tight_inst) = [3, 3]
                   \<and> cw_alive tight_inst line_D = [[0, 1, 0], [0, 2, 0]]" by code_simp
  ultimately show ?thesis using cw by simp
qed

subsection \<open>C4: the capacity invariant\<close>






subsection \<open>C2: a customer heavier than the capacity\<close>

lemma route_demand_nonneg:
  assumes "\<forall>n\<in>set (customers inst). 0 \<le> demand n"
    and "\<forall>v\<in>set r. v < length (all_nodes inst)"
  shows "0 \<le> route_demand r (all_nodes inst)"
proof -
  have "0 \<le> demand (all_nodes inst ! v)" if mem: "v \<in> set r" and nz: "v \<noteq> 0" for v
  proof -
    have "v < length (all_nodes inst)" using mem assms(2) by blast
    then obtain k where "v = Suc k" "k < length (customers inst)"
      using nz by (cases v) (auto simp: all_nodes_def)
    then show ?thesis using assms(1) by (simp add: all_nodes_def)
  qed
  then show ?thesis unfolding route_demand_def by (intro sum_list_nonneg) auto
qed

lemma cw_step_alone:
  assumes nonneg: "\<forall>n\<in>set (customers inst). 0 \<le> demand n"
    and heavy: "vehicle_capacity inst < demand (all_nodes inst ! c)"
    and c: "c \<noteq> 0"
    and inv: "alone_inv inst c (cw_routes st)"
  shows "alone_inv inst c (cw_routes (cw_step inst st sij))"
proof -
  let ?rs = "cw_routes st"
  let ?n = "all_nodes inst"
  consider (same) "cw_routes (cw_step inst st sij) = ?rs"
    | (merge) a b ra rb where "a < length ?rs" "b < length ?rs"
        "ra = ?rs ! a \<or> ra = rev (?rs ! a)" "rb = ?rs ! b \<or> rb = rev (?rs ! b)"
        "route_demand (?rs ! a) ?n + route_demand (?rs ! b) ?n \<le> vehicle_capacity inst"
        "cw_routes (cw_step inst st sij) = ?rs[a := butlast ra @ tl rb, b := [0, 0]]"
    using cw_step_routes[of inst st sij] by blast
  then show ?thesis
  proof cases
    case same
    then show ?thesis using inv by simp
  next
    case merge
    note a = merge(1) and b = merge(2) and ra = merge(3) and rb = merge(4)
      and load = merge(5) and upd = merge(6)
    have valid: "\<forall>v\<in>set r. v < length ?n" if "r \<in> set ?rs" for r
      using inv that by (auto simp: alone_inv_def valid_entries_def)
    have la: "0 \<le> route_demand (?rs ! a) ?n" and lb: "0 \<le> route_demand (?rs ! b) ?n"
      using route_demand_nonneg[OF nonneg valid] a b by simp_all
    have slot: "route_demand (?rs ! (c - 1)) ?n = demand (?n ! c)"
      using inv c by (simp add: alone_inv_def route_demand_def)
    have na: "a \<noteq> c - 1" using load lb slot heavy by auto
    have nb: "b \<noteq> c - 1" using load la slot heavy by auto
    have keep: "(?rs[a := butlast ra @ tl rb, b := [0, 0]]) ! (c - 1) = [0, c, 0]"
      using na nb inv by (simp add: alone_inv_def)
    have sa: "set ra = set (?rs ! a)" and sb: "set rb = set (?rs ! b)"
      using ra rb by auto
    have new: "\<forall>v\<in>set (butlast ra @ tl rb). v < length ?n"
    proof
      fix v assume "v \<in> set (butlast ra @ tl rb)"
      moreover have "set (tl rb) \<subseteq> set rb" by (cases rb) auto
      ultimately have "v \<in> set ra \<or> v \<in> set rb"
        by (auto dest: in_set_butlastD)
      moreover have "?rs ! a \<in> set ?rs" and "?rs ! b \<in> set ?rs" using a b by simp_all
      ultimately show "v < length ?n" using sa sb valid by blast
    qed
    have "\<forall>v\<in>set r. v < length ?n" if "r \<in> set (?rs[a := butlast ra @ tl rb, b := [0, 0]])" for r
    proof -
      have "0 < length ?n" by (simp add: all_nodes_def)
      then have "\<forall>v\<in>set [0, 0::nat]. v < length ?n" by simp
      then show ?thesis using set_update2[OF that] new valid by blast
    qed
    then show ?thesis using keep inv unfolding upd by (simp add: alone_inv_def valid_entries_def)
  qed
qed

lemma cw_fold_alone:
  assumes "\<forall>n\<in>set (customers inst). 0 \<le> demand n"
    and "vehicle_capacity inst < demand (all_nodes inst ! c)" and "c \<noteq> 0"
  shows "alone_inv inst c (cw_routes st)
           \<Longrightarrow> alone_inv inst c (cw_routes (foldl (cw_step inst) st ps))"
  by (induction ps arbitrary: st) (simp_all add: cw_step_alone[OF assms])

lemma cw_init_alone:
  assumes "c \<in> set (nodes_idx inst)"
  shows "alone_inv inst c (cw_routes (cw_init inst))"
proof -
  have c: "1 \<le> c" "c \<le> length (customers inst)" using assms by (simp_all add: nodes_idx_mem)
  then have "c - 1 < length (nodes_idx inst)" by (simp add: nodes_idx_def)
  moreover have "nodes_idx inst ! (c - 1) = c"
    unfolding nodes_idx_def using c by (subst nth_upt) simp_all
  moreover have "valid_entries inst (cw_routes (cw_init inst))"
    by (auto simp: valid_entries_def cw_init_def nodes_idx_mem all_nodes_def)
  ultimately show ?thesis by (simp add: alone_inv_def cw_init_def)
qed

text \<open>
  Claim C2, amended. The construction has no infeasibility check and raises no error.
  For an instance without negative demands and a customer \<open>c\<close> whose demand exceeds the
  capacity, no merge involving \<open>c\<close> ever fits, so the singleton route \<open>[0, c, 0]\<close>
  survives the merge loop; when the surviving routes do not outnumber the vehicles it is
  part of the returned solution: the customer is silently routed on its own.
\<close>

theorem overweight_customer_routed_alone:
  assumes "c \<in> set (nodes_idx inst)"
    and "vehicle_capacity inst < demand (all_nodes inst ! c)"
    and "\<forall>n\<in>set (customers inst). 0 \<le> demand n"
  shows "[0, c, 0] \<in> set (cw_alive inst D)
         \<and> (int (length (cw_alive inst D)) \<le> num_vehicles inst
              \<longrightarrow> [0, c, 0] \<in> set (clarke_wright inst D))"
proof -
  have c: "c \<noteq> 0" using assms(1) by (simp add: nodes_idx_mem)
  have "alone_inv inst c (cw_routes (cw_merged inst D))"
    unfolding cw_merged_def
    using cw_fold_alone[OF assms(3) assms(2) c cw_init_alone[OF assms(1)]] .
  then have "[0, c, 0] \<in> set (cw_routes (cw_merged inst D))"
    by (metis alone_inv_def nth_mem)
  then have alive: "[0, c, 0] \<in> set (cw_alive inst D)"
    using c by (simp add: cw_alive_def)
  then show ?thesis by (simp add: clarke_wright_def Let_def)
qed

theorem overweight_customer_routed_alone_witness:
  "clarke_wright overweight_inst kite_D = [[0, 2, 1, 4, 0], [0, 3, 0]]
   \<and> [0, 3, 0] \<in> set (clarke_wright overweight_inst kite_D)"
proof -
  have c: "3 \<in> set (nodes_idx overweight_inst)" by code_simp
  have h: "vehicle_capacity overweight_inst < demand (all_nodes overweight_inst ! 3)"
    by code_simp
  have n: "\<forall>n\<in>set (customers overweight_inst). 0 \<le> demand n" by code_simp
  have l: "int (length (cw_alive overweight_inst kite_D)) \<le> num_vehicles overweight_inst"
    by code_simp
  have v: "clarke_wright overweight_inst kite_D = [[0, 2, 1, 4, 0], [0, 3, 0]]" by code_simp
  show ?thesis using overweight_customer_routed_alone[OF c h n, of kite_D] l v by simp
qed

text \<open>
  Claim C2 as stated fails: for the single customer of \<open>heavy_inst\<close>, of demand 5 against
  capacity 3, the construction returns the solution \<open>[[0, 1, 0]]\<close>.
\<close>

theorem overweight_customer_counterexample:
  "vehicle_capacity heavy_inst = 3 \<and> map demand (customers heavy_inst) = [5]
   \<and> clarke_wright heavy_inst heavy_D = [[0, 1, 0]]"
  by code_simp

subsection \<open>C10: annealing with no time budget\<close>

lemma copy_elems_next: "next_ref (fst (copy_elems s refs)) = next_ref s + length refs"
  by (induction refs arbitrary: s) (simp_all add: Let_def alloc_inner_def)

lemma copy_elems_refs: "snd (copy_elems s refs) = [next_ref s ..< next_ref s + length refs]"
proof (induction refs arbitrary: s)
  case Nil
  show ?case by simp
next
  case (Cons a refs)
  let ?p = "alloc_inner s (inner s a)"
  have n: "next_ref (fst ?p) = Suc (next_ref s)" and r: "snd ?p = next_ref s"
    by (simp_all add: alloc_inner_def)
  have "snd (copy_elems s (a # refs)) = snd ?p # snd (copy_elems (fst ?p) refs)"
    by (simp add: Let_def)
  also have "\<dots> = next_ref s # [Suc (next_ref s) ..< Suc (next_ref s) + length refs]"
    unfolding Cons.IH n r ..
  also have "\<dots> = [next_ref s ..< next_ref s + length (a # refs)]"
    by (subst (2) upt_conv_Cons) simp_all
  finally show ?case .
qed

lemma copy_elems_outer: "outer (fst (copy_elems s refs)) = outer s"
  by (induction refs arbitrary: s) (simp_all add: Let_def alloc_inner_def)

lemma copy_elems_old: "a < next_ref s \<Longrightarrow> inner (fst (copy_elems s refs)) a = inner s a"
  by (induction refs arbitrary: s) (simp_all add: Let_def alloc_inner_def)

lemma copy_elems_values:
  "\<forall>a\<in>set refs. a < next_ref s \<Longrightarrow>
     map (inner (fst (copy_elems s refs))) (snd (copy_elems s refs)) = map (inner s) refs"
proof (induction refs arbitrary: s)
  case Nil
  show ?case by simp
next
  case (Cons a refs)
  let ?p = "alloc_inner s (inner s a)"
  let ?q = "copy_elems (fst ?p) refs"
  have n: "next_ref (fst ?p) = Suc (next_ref s)" and r: "snd ?p = next_ref s"
    by (simp_all add: alloc_inner_def)
  have old: "\<forall>b\<in>set refs. b < next_ref (fst ?p)" using Cons.prems n by auto
  have "map (inner (fst ?q)) (snd ?q) = map (inner (fst ?p)) refs"
    using Cons.IH[OF old] .
  also have "\<dots> = map (inner s) refs"
    using Cons.prems by (auto simp: alloc_inner_def)
  finally have tl: "map (inner (fst ?q)) (snd ?q) = map (inner s) refs" .
  have "inner (fst ?q) (next_ref s) = inner (fst ?p) (next_ref s)"
    by (rule copy_elems_old) (simp add: n)
  then have hd: "inner (fst ?q) (snd ?p) = inner s a" by (simp add: alloc_inner_def)
  show ?case using hd tl by (simp add: Let_def)
qed

text \<open>What a copy of an allocated solution object is: a new solution object of new route
  objects with the same contents; every object that existed before is unchanged.\<close>

lemma copy_routes_fresh:
  assumes "\<forall>a\<in>set (outer s sol). a < next_ref s"
  shows "next_ref s \<le> snd (copy_routes s sol)"
    and "snd (copy_routes s sol) < next_ref (fst (copy_routes s sol))"
    and "\<forall>a\<in>set (outer (fst (copy_routes s sol)) (snd (copy_routes s sol))).
           next_ref s \<le> a \<and> a < next_ref (fst (copy_routes s sol))"
    and "deref (fst (copy_routes s sol)) (snd (copy_routes s sol)) = deref s sol"
    and "\<forall>a. a < next_ref s \<longrightarrow> inner (fst (copy_routes s sol)) a = inner s a
                                 \<and> outer (fst (copy_routes s sol)) a = outer s a"
proof -
  let ?p = "copy_elems s (outer s sol)"
  have c: "copy_routes s sol = alloc_outer (fst ?p) (snd ?p)" by (simp add: copy_routes_def Let_def)
  have n: "next_ref (fst ?p) = next_ref s + length (outer s sol)" by (rule copy_elems_next)
  show "next_ref s \<le> snd (copy_routes s sol)" by (simp add: c alloc_outer_def n)
  show "snd (copy_routes s sol) < next_ref (fst (copy_routes s sol))"
    by (simp add: c alloc_outer_def)
  show "\<forall>a\<in>set (outer (fst (copy_routes s sol)) (snd (copy_routes s sol))).
          next_ref s \<le> a \<and> a < next_ref (fst (copy_routes s sol))"
    by (simp add: c alloc_outer_def copy_elems_refs n)
  show "deref (fst (copy_routes s sol)) (snd (copy_routes s sol)) = deref s sol"
    using copy_elems_values[OF assms] by (simp add: c alloc_outer_def deref_def)
  show "\<forall>a. a < next_ref s \<longrightarrow> inner (fst (copy_routes s sol)) a = inner s a
                                \<and> outer (fst (copy_routes s sol)) a = outer s a"
    by (simp add: c alloc_outer_def copy_elems_old copy_elems_outer n)
qed

lemma sa_init_st_fresh:
  fixes s :: store and inst :: VRPInstance and D :: matrix and T0 :: real
  assumes "allocated s routes"
  defines "st \<equiv> sa_init_st s routes inst D T0"
  shows "deref (ss_store st) (ss_best st) = deref s routes"
    and "next_ref s \<le> ss_best st"
    and "\<forall>a\<in>set (outer (ss_store st) (ss_best st)). next_ref s \<le> a"
    and "outer (ss_store st) routes = outer s routes"
    and "deref (ss_store st) routes = deref s routes"
    and "ss_iters st = 0"
proof -
  let ?b = "copy_routes s routes"
  let ?c = "copy_routes (fst ?b) routes"
  have al: "routes < next_ref s" "\<forall>a\<in>set (outer s routes). a < next_ref s"
    using assms(1) by (simp_all add: allocated_def)
  note b = copy_routes_fresh[OF al(2)]
  have mono: "next_ref s \<le> next_ref (fst ?b)" using b(1) b(2) by simp
  have ob: "outer (fst ?b) routes = outer s routes" using b(5) al(1) by simp
  have al2: "\<forall>a\<in>set (outer (fst ?b) routes). a < next_ref (fst ?b)"
    using al(2) mono unfolding ob by auto
  note c = copy_routes_fresh[OF al2]
  have store: "ss_store st = fst ?c" and best: "ss_best st = snd ?b"
    by (simp_all add: st_def sa_init_st_def Let_def)
  have keep_best: "outer (fst ?c) (snd ?b) = outer (fst ?b) (snd ?b)"
    using c(5) b(2) by simp
  have "map (inner (fst ?c)) (outer (fst ?b) (snd ?b)) = map (inner (fst ?b)) (outer (fst ?b) (snd ?b))"
    using c(5) b(3) by (intro map_cong) auto
  then have "deref (fst ?c) (snd ?b) = deref (fst ?b) (snd ?b)"
    by (simp add: deref_def keep_best)
  then show "deref (ss_store st) (ss_best st) = deref s routes"
    using b(4) by (simp add: store best)
  show "next_ref s \<le> ss_best st" using b(1) by (simp add: best)
  show "\<forall>a\<in>set (outer (ss_store st) (ss_best st)). next_ref s \<le> a"
    using b(3) by (simp add: store best keep_best)
  have oc: "outer (fst ?c) routes = outer s routes"
    using c(5) al(1) mono ob by simp
  then show "outer (ss_store st) routes = outer s routes" by (simp add: store)
  have "map (inner (fst ?c)) (outer s routes) = map (inner s) (outer s routes)"
  proof (intro map_cong refl)
    fix a assume "a \<in> set (outer s routes)"
    then have "a < next_ref s" using al(2) by blast
    then show "inner (fst ?c) a = inner s a" using c(5) b(5) mono by simp
  qed
  then show "deref (ss_store st) routes = deref s routes"
    by (simp add: deref_def store oc)
  show "ss_iters st = 0" by (simp add: st_def sa_init_st_def Let_def)
qed

text \<open>
  Claim C10. With a time budget of zero or less, and a clock that does not run
  backwards between the reading that fixes the deadline and the first loop test, the
  loop body never runs (the run ends in the initial state, with the iteration counter
  at 0) and \<open>simulated_annealing\<close> returns a solution object that did not exist before
  the call, holding route objects that did not exist before the call, with the same
  routes, element by element, as the input, hence of the same total cost; the input
  solution object and its route objects are not changed. The model on values returns the
  input routes.
\<close>

theorem annealing_without_budget:
  assumes "time_budget_s \<le> 0" and "t0 \<le> t1" and "allocated s routes"
  shows "\<exists>s' best.
           simulated_annealing_st s routes inst D time_budget_s T0 alpha rng (t0 # t1 # ts)
             = Some (s', best)
           \<and> map_option ss_iters
               (sa_run_st s routes inst D time_budget_s T0 alpha rng (t0 # t1 # ts)) = Some 0
           \<and> deref s' best = deref s routes
           \<and> next_ref s \<le> best \<and> best \<noteq> routes
           \<and> (\<forall>a\<in>set (outer s' best). next_ref s \<le> a)
           \<and> set (outer s' best) \<inter> set (outer s routes) = {}
           \<and> outer s' routes = outer s routes \<and> deref s' routes = deref s routes
           \<and> total_cost (deref s' best) inst D = total_cost (deref s routes) inst D
           \<and> simulated_annealing (deref s routes) inst D time_budget_s T0 alpha rng
                 (t0 # t1 # ts) = Some (deref s routes)"
proof -
  let ?st = "sa_init_st s routes inst D T0"
  have stop: "\<not> t1 < t0 + time_budget_s" using assms(1,2) by simp
  have run: "sa_run_st s routes inst D time_budget_s T0 alpha rng (t0 # t1 # ts) = Some ?st"
    using stop by (simp add: sa_run_st_def)
  note f = sa_init_st_fresh[OF assms(3), of inst D T0]
  have al: "routes < next_ref s" "\<forall>a\<in>set (outer s routes). a < next_ref s"
    using assms(3) by (simp_all add: allocated_def)
  have ne: "ss_best ?st \<noteq> routes" using f(2) al(1) by simp
  have disj: "set (outer (ss_store ?st) (ss_best ?st)) \<inter> set (outer s routes) = {}"
    using f(3) al(2) by fastforce
  have val: "simulated_annealing (deref s routes) inst D time_budget_s T0 alpha rng
               (t0 # t1 # ts) = Some (deref s routes)"
    using stop by (simp add: simulated_annealing_def sa_init_def)
  have "simulated_annealing_st s routes inst D time_budget_s T0 alpha rng (t0 # t1 # ts)
          = Some (ss_store ?st, ss_best ?st)"
    by (simp add: simulated_annealing_st_def run)
  then show ?thesis using run f ne disj val by simp
qed

theorem annealing_without_budget_witness:
  "\<exists>s' best.
     simulated_annealing_st line_store 2 line_inst line_D 0 1 (995 / 1000) (\<lambda>_. 0) [5, 5]
       = Some (s', best)
     \<and> deref s' best = [[0, 1, 0], [0, 2, 0]]
     \<and> 3 \<le> best
     \<and> set (outer s' best) \<inter> {0, 1} = {}
     \<and> deref s' 2 = [[0, 1, 0], [0, 2, 0]]"
proof -
  have a: "allocated line_store 2" by code_simp
  have d: "deref line_store 2 = [[0, 1, 0], [0, 2, 0]]" by code_simp
  have o: "outer line_store 2 = [0, 1]" by code_simp
  have n: "next_ref line_store = 3" by code_simp
  have b: "(0::real) \<le> 0" and c: "(5::real) \<le> 5" by simp_all
  from annealing_without_budget[OF b c a, of line_inst line_D 1 "995 / 1000" "\<lambda>_. 0" "[]"]
  obtain s' best where
    "simulated_annealing_st line_store 2 line_inst line_D 0 1 (995 / 1000) (\<lambda>_. 0) [5, 5]
       = Some (s', best)"
    "deref s' best = deref line_store 2" "next_ref line_store \<le> best"
    "set (outer s' best) \<inter> set (outer line_store 2) = {}"
    "deref s' 2 = deref line_store 2"
    by blast
  then show ?thesis unfolding d o n by (intro exI[of _ s'] exI[of _ best]) simp
qed

end
